theory Spec2Isabelle
  imports Complex_Main
begin

section \<open>Numbers and sample arrays\<close>

text \<open>
  The processor of \<^verbatim>\<open>public/rnnoise/rnnoise-worklet-processor.js\<close> works on
  JavaScript numbers held in \<^verbatim>\<open>Float32Array\<close>s. A number is a binary64 value: a
  finite value, given by the real it denotes, or one of the three non-finite values.
  The two zeros are not told apart (they compare equal and add alike). A
  \<^verbatim>\<open>Float32Array\<close> is a list of numbers; its length never changes after creation.
\<close>

datatype number = Fin real | NaN | PInf | NInf

text \<open>\<^verbatim>\<open>isFinite(x)\<close> of JavaScript.\<close>

fun isFinite :: "number \<Rightarrow> bool" where
  "isFinite (Fin x) = True"
| "isFinite NaN = False"
| "isFinite PInf = False"
| "isFinite NInf = False"

text \<open>The comparison \<^verbatim>\<open>a < b\<close>: false as soon as one side is NaN.\<close>

fun num_lt :: "number \<Rightarrow> number \<Rightarrow> bool" where
  "num_lt (Fin a) (Fin b) = (a < b)"
| "num_lt (Fin a) PInf = True"
| "num_lt NInf (Fin b) = True"
| "num_lt NInf PInf = True"
| "num_lt _ _ = False"

text \<open>The comparison \<^verbatim>\<open>a > b\<close>.\<close>

definition num_gt :: "number \<Rightarrow> number \<Rightarrow> bool" where
  "num_gt a b = num_lt b a"

subsection \<open>Rounding to a binary format\<close>

text \<open>
  Sums and quotients of numbers are rounded to the nearest binary64 value, ties to the
  even significand, and a number stored in a \<^verbatim>\<open>Float32Array\<close> is rounded to the
  nearest binary32 value in the same way. A format is given by its precision \<open>p\<close>
  and its least and greatest exponents: 53, \<open>- 1022\<close> and 1023 for binary64, 24,
  \<open>- 126\<close> and 127 for binary32.
\<close>

definition pow2 :: "int \<Rightarrow> real" where
  "pow2 k = (if 0 \<le> k then 2 ^ nat k else 1 / 2 ^ nat (- k))"

text \<open>The integer nearest to \<open>r\<close>, the even one of the two when \<open>r\<close> is half way.\<close>

definition round_half_even :: "real \<Rightarrow> int" where
  "round_half_even r =
     (let f = \<lfloor>r\<rfloor>; d = r - of_int f
      in if d < 1 / 2 then f else if 1 / 2 < d then f + 1 else if even f then f else f + 1)"

text \<open>The exponent \<open>e\<close> of a positive \<open>x\<close>: \<open>2 ^ e \<le> x < 2 ^ (e + 1)\<close>.\<close>

function exponent :: "real \<Rightarrow> int" where
  "exponent x =
     (if x \<le> 0 then 0
      else if 2 \<le> x then exponent (x / 2) + 1
      else if x < 1 then exponent (2 * x) - 1
      else 0)"
  by pat_completeness auto
termination
proof (relation "measure (\<lambda>x. nat \<bar>\<lfloor>log 2 x\<rfloor>\<bar>)")
  show "wf (measure (\<lambda>x. nat \<bar>\<lfloor>log 2 x\<rfloor>\<bar>))" by simp
next
  fix x :: real
  assume "\<not> x \<le> 0" and big: "2 \<le> x"
  then have "log 2 (x / 2) = log 2 x - 1" by (simp add: log_divide)
  moreover have "1 \<le> \<lfloor>log 2 x\<rfloor>" using big by (simp add: le_floor_iff le_log_iff)
  ultimately show "(x / 2, x) \<in> measure (\<lambda>x. nat \<bar>\<lfloor>log 2 x\<rfloor>\<bar>)" by simp
next
  fix x :: real
  assume pos: "\<not> x \<le> 0" and "\<not> 2 \<le> x" and small: "x < 1"
  then have two: "\<lfloor>log 2 (2 * x)\<rfloor> = 1 + \<lfloor>log 2 x\<rfloor>" by (simp add: log_mult)
  have "log 2 x < 0" using pos small by simp
  then have "\<lfloor>log 2 x\<rfloor> < 0" by (simp add: floor_less_iff)
  then have "nat \<bar>1 + \<lfloor>log 2 x\<rfloor>\<bar> < nat \<bar>\<lfloor>log 2 x\<rfloor>\<bar>" by linarith
  then show "(2 * x, x) \<in> measure (\<lambda>x. nat \<bar>\<lfloor>log 2 x\<rfloor>\<bar>)"
    by (simp only: in_measure two)
qed

declare exponent.simps [simp del]

text \<open>
  Rounding of the real \<open>x\<close>: to the nearest multiple of the spacing in the binade of
  \<open>x\<close> (that of the least exponent for smaller \<open>x\<close>), and to an infinity when the
  result is beyond the greatest finite value of the format.
\<close>

definition round_nearest :: "nat \<Rightarrow> int \<Rightarrow> int \<Rightarrow> real \<Rightarrow> number" where
  "round_nearest p emin emax x =
     (if x = 0 then Fin 0
      else
        let e = max (exponent \<bar>x\<bar>) emin;
            u = pow2 (e - int p + 1);
            y = of_int (round_half_even (x / u)) * u
        in if pow2 (emax + 1) \<le> \<bar>y\<bar> then (if 0 < y then PInf else NInf) else Fin y)"

definition round64 :: "real \<Rightarrow> number" where
  "round64 = round_nearest 53 (- 1022) 1023"

definition round32 :: "real \<Rightarrow> number" where
  "round32 = round_nearest 24 (- 126) 127"

text \<open>
  The assignment \<^verbatim>\<open>array[i] = v\<close> into a \<^verbatim>\<open>Float32Array\<close> stores \<open>v\<close> rounded to
  binary32.
\<close>

fun storeFloat32 :: "number \<Rightarrow> number" where
  "storeFloat32 (Fin x) = round32 x"
| "storeFloat32 NaN = NaN"
| "storeFloat32 PInf = PInf"
| "storeFloat32 NInf = NInf"

subsection \<open>Arithmetic\<close>

text \<open>The sum \<^verbatim>\<open>a + b\<close>: rounded; opposite infinities give NaN.\<close>

fun num_add :: "number \<Rightarrow> number \<Rightarrow> number" where
  "num_add (Fin a) (Fin b) = round64 (a + b)"
| "num_add NaN _ = NaN"
| "num_add _ NaN = NaN"
| "num_add PInf NInf = NaN"
| "num_add NInf PInf = NaN"
| "num_add PInf _ = PInf"
| "num_add _ PInf = PInf"
| "num_add NInf _ = NInf"
| "num_add _ NInf = NInf"

text \<open>
  The quotient \<^verbatim>\<open>a / n\<close> of a number by a count \<open>n\<close> (the length of an array),
  rounded. Dividing by the count 0 gives NaN for 0 and an infinity otherwise.
\<close>

fun num_div_count :: "number \<Rightarrow> nat \<Rightarrow> number" where
  "num_div_count (Fin a) n =
     (if n = 0 then (if a = 0 then NaN else if 0 < a then PInf else NInf)
      else round64 (a / real n))"
| "num_div_count NaN n = NaN"
| "num_div_count PInf n = PInf"
| "num_div_count NInf n = NInf"

text \<open>
  \<^verbatim>\<open>array.set(source, 0)\<close> for a source no longer than the array (the only use the
  processor makes of it): the leading slots are overwritten, the others keep their
  contents.
\<close>

definition set_from_start :: "number list \<Rightarrow> number list \<Rightarrow> number list" where
  "set_from_start array source = source @ drop (length source) array"

text \<open>
  \<^verbatim>\<open>array.slice(0, n)\<close> and \<^verbatim>\<open>array.slice(n)\<close> for an integer \<open>n\<close>: a negative
  \<open>n\<close> counts from the end of the array, and both bounds are clamped to the array.
\<close>

definition slice_to :: "int \<Rightarrow> 'a list \<Rightarrow> 'a list" where
  "slice_to n xs = take (if n < 0 then nat (int (length xs) + n) else nat n) xs"

definition slice_from :: "int \<Rightarrow> 'a list \<Rightarrow> 'a list" where
  "slice_from n xs = drop (if n < 0 then nat (int (length xs) + n) else nat n) xs"

text \<open>
  \<^verbatim>\<open>new Float32Array(n)\<close> for an integer \<open>n\<close>: a zero-filled array, or a
  \<^verbatim>\<open>RangeError\<close> when \<open>n\<close> is negative. An allocation that fails for lack of
  memory is not modelled.
\<close>

datatype error = RangeError

definition newFloat32Array :: "int \<Rightarrow> error + number list" where
  "newFloat32Array n = (if n < 0 then Inl RangeError else Inr (replicate (nat n) (Fin 0)))"

section \<open>Sample scaling around the engine call\<close>

text \<open>
  \<^verbatim>\<open>processFrame\<close>, line 165: \<^verbatim>\<open>scaledFrame[i] = frame[i] * 32768\<close>. The factor
  is a power of two: on the samples of a \<^verbatim>\<open>Float32Array\<close> the product and the
  quotient of line 184 are exact short of overflow and underflow, and they are taken
  exact here.
\<close>

fun toEngineDomain :: "number \<Rightarrow> number" where
  "toEngineDomain (Fin x) = Fin (x * 32768)"
| "toEngineDomain NaN = NaN"
| "toEngineDomain PInf = PInf"
| "toEngineDomain NInf = NInf"

text \<open>\<^verbatim>\<open>outputView[i] / 32768\<close> of line 184.\<close>

fun div32768 :: "number \<Rightarrow> number" where
  "div32768 (Fin y) = Fin (y / 32768)"
| "div32768 NaN = NaN"
| "div32768 PInf = PInf"
| "div32768 NInf = NInf"

text \<open>
  Lines 184 to 190: the division, then the two clamping tests in the order of the
  source. Both tests are false on NaN, which therefore passes through.
\<close>

definition fromEngineDomain :: "number \<Rightarrow> number" where
  "fromEngineDomain y =
     (let sample = div32768 y;
          sample = (if num_gt sample (Fin 1) then Fin 1 else sample);
          sample = (if num_lt sample (Fin (- 1)) then Fin (- 1) else sample)
      in sample)"

section \<open>The processor object\<close>

text \<open>
  The engine is foreign code. What the processor sees of one call of
  \<^verbatim>\<open>rnnoise_process_frame\<close> inside the \<^verbatim>\<open>try\<close> block of
  \<^verbatim>\<open>processFrame\<close> (lines 158 to 198) is either a normal return, with the
  contents of the output scratch region (by slot) and the returned score, or an
  exception (a trap of the engine, a failing memory view), which the \<^verbatim>\<open>catch\<close>
  receives. Both leave the engine in some new state \<open>'e\<close>, which stands for the
  instance and its linear memory.
\<close>

datatype 'e engine_result = Returned 'e "nat \<Rightarrow> number" number | Threw 'e

type_synonym 'e engine = "'e \<Rightarrow> number list \<Rightarrow> 'e engine_result"

text \<open>
  The exports object held in \<^verbatim>\<open>this.rnnoiseModule\<close>, as far as \<^verbatim>\<open>destroy\<close>
  inspects it: the two \<^verbatim>\<open>typeof ... === 'function'\<close> tests.
\<close>

record exports =
  has_rnnoise_destroy :: bool
  has_free :: bool

datatype wasm_memory = WasmMemory

text \<open>
  The fields of \<^verbatim>\<open>RnnoiseWorkletProcessor\<close> (constructor, lines 5 to 22).
  \<^verbatim>\<open>null\<close> is \<open>None\<close>; the handle and the two scratch pointers are integers, falsy
  when 0. \<open>frameSize\<close> is the engine's answer, a 32-bit integer that the processor
  never checks. The counter only ever counts up from 0; the threshold and
  \<open>maxSilenceFrames\<close> are whatever the last \<^verbatim>\<open>setParameter\<close> message gave (a
  number, an integer); the literal \<^verbatim>\<open>0.1\<close> of line 20 denotes the binary64 value
  nearest to one tenth. \<^verbatim>\<open>debug\<close> only switches logging; it is a parameter of
  \<open>initRnnoise\<close> below, the one place where logging can fail. \<open>engine\<close> is the
  state of the foreign instance, which the object reaches through its handle.
\<close>

record 'e processor =
  isDestroy :: bool
  rnnoiseModule :: "exports option"
  frameSize :: int
  state :: int
  pcmInputBuf :: int
  pcmOutputBuf :: int
  memory :: "wasm_memory option"
  inputBuffer :: "number list"
  outputBuffer :: "number list"
  vadHistory :: "number list"
  silenceThreshold :: number
  silenceCounter :: nat
  maxSilenceFrames :: int
  engine :: 'e

definition constructor :: "'e \<Rightarrow> 'e processor" where
  "constructor e =
     \<lparr> isDestroy = False, rnnoiseModule = None, frameSize = 0, state = 0,
       pcmInputBuf = 0, pcmOutputBuf = 0, memory = None,
       inputBuffer = [], outputBuffer = [], vadHistory = [],
       silenceThreshold = round64 (1 / 10), silenceCounter = 0, maxSilenceFrames = 10,
       engine = e \<rparr>"

text \<open>
  The test of lines 141 and 213:
  \<^verbatim>\<open>!this.rnnoiseModule || !this.state || !this.memory || !this.pcmInputBuf || !this.pcmOutputBuf\<close>.
\<close>

definition notInitialized :: "'e processor \<Rightarrow> bool" where
  "notInitialized s \<longleftrightarrow>
     rnnoiseModule s = None \<or> state s = 0 \<or> memory s = None \<or>
     pcmInputBuf s = 0 \<or> pcmOutputBuf s = 0"

section \<open>initRnnoise\<close>

text \<open>
  What \<^verbatim>\<open>WebAssembly.instantiate\<close> delivers, as far as \<^verbatim>\<open>initRnnoise\<close> uses it:
  which names are exported as functions, the exported memory (if any), and the outcome
  of each foreign call made during initialisation, \<open>None\<close> or \<open>False\<close> when the call
  throws. \<open>started\<close> is the state of the fresh instance.
\<close>

record 'e wasm_instance =
  exported :: "string \<Rightarrow> bool"
  exported_memory :: "wasm_memory option"
  wasm_call_ctors_returns :: bool
  rnnoise_create :: "int option"
  rnnoise_get_frame_size :: "int option"
  malloc_input :: "int option"
  malloc_output :: "int option"
  started :: 'e

definition requiredFunctions :: "string list" where
  "requiredFunctions =
     [''rnnoise_create'', ''rnnoise_get_frame_size'', ''rnnoise_process_frame'',
      ''malloc'', ''free'', ''rnnoise_destroy'']"

text \<open>
  \<^verbatim>\<open>initRnnoise(bytes)\<close>, lines 55 to 133, from the point where the awaited
  instantiation settles (\<open>None\<close>: it was rejected). The flag tells whether the
  \<^verbatim>\<open>catch\<close> ran, that is whether the initialisation failed. With \<^verbatim>\<open>debug\<close> set,
  the log of lines 119 to 125 reads \<^verbatim>\<open>this.memory.buffer\<close> and throws without a
  memory.
\<close>

definition initRnnoise ::
  "bool \<Rightarrow> 'e processor \<Rightarrow> 'e wasm_instance option \<Rightarrow> 'e processor \<times> bool" where
  "initRnnoise debug s instantiated =
     (case instantiated of
        None \<Rightarrow> (s, True)
      | Some inst \<Rightarrow>
          let s = s\<lparr>rnnoiseModule :=
                      Some \<lparr>has_rnnoise_destroy = exported inst ''rnnoise_destroy'',
                            has_free = exported inst ''free''\<rparr>,
                    memory := exported_memory inst, engine := started inst\<rparr>
          in if \<not> list_all (exported inst) requiredFunctions then (s, True)
             else if exported inst ''__wasm_call_ctors'' \<and> \<not> wasm_call_ctors_returns inst
             then (s, True)
             else
               case rnnoise_create inst of
                 None \<Rightarrow> (s, True)
               | Some handle \<Rightarrow>
                   let s = s\<lparr>state := handle\<rparr>
                   in case rnnoise_get_frame_size inst of
                        None \<Rightarrow> (s, True)
                      | Some n \<Rightarrow>
                          let s = s\<lparr>frameSize := n\<rparr>
                          in case malloc_input inst of
                               None \<Rightarrow> (s, True)
                             | Some p \<Rightarrow>
                                 let s = s\<lparr>pcmInputBuf := p\<rparr>
                                 in case malloc_output inst of
                                      None \<Rightarrow> (s, True)
                                    | Some q \<Rightarrow>
                                        let s = s\<lparr>pcmOutputBuf := q\<rparr>
                                        in if debug \<and> memory s = None then (s, True)
                                           else (s, False))"

section \<open>processFrame\<close>

text \<open>
  Lines 152 to 154: a fresh zero-filled array of \<open>frameSize\<close> slots, overwritten from
  slot 0 with the first \<open>min (length frame) frameSize\<close> samples. The allocation
  throws when \<open>frameSize\<close> is negative.
\<close>

definition paddedFrame :: "int \<Rightarrow> number list \<Rightarrow> error + number list" where
  "paddedFrame n frame =
     (case newFloat32Array n of
        Inl err \<Rightarrow> Inl err
      | Inr zeros \<Rightarrow>
          let copyLength = min (int (length frame)) n
          in Inr (set_from_start zeros (take (nat copyLength) frame)))"

text \<open>
  \<^verbatim>\<open>processFrame(frame)\<close>, lines 140 to 199. A normal return gives the returned
  object \<^verbatim>\<open>{ frame, vad }\<close> together with the processor, of which only the engine
  state can have changed. The padding of lines 147 to 156 stands before the
  \<^verbatim>\<open>try\<close> block, so that its exception leaves \<^verbatim>\<open>processFrame\<close>; past it the
  frame has \<open>frameSize\<close> samples. In the \<^verbatim>\<open>catch\<close> branch the variable
  \<^verbatim>\<open>frame\<close> is the one reassigned at line 155.
\<close>

definition processFrame ::
  "'e engine \<Rightarrow> 'e processor \<Rightarrow> number list \<Rightarrow>
     error + ('e processor \<times> number list \<times> number)" where
  "processFrame eng s frame =
     (if notInitialized s then Inr (s, frame, Fin 0)
      else
        case (if int (length frame) \<noteq> frameSize s then paddedFrame (frameSize s) frame
              else Inr frame) of
          Inl err \<Rightarrow> Inl err
        | Inr frame \<Rightarrow>
            let n = nat (frameSize s);
                scaledFrame = map (\<lambda>i. toEngineDomain (frame ! i)) [0..<n]
            in case eng (engine s) scaledFrame of
                 Returned e outputView vad \<Rightarrow>
                   Inr (s\<lparr>engine := e\<rparr>,
                        map (\<lambda>i. fromEngineDomain (outputView i)) [0..<n],
                        vad)
               | Threw e \<Rightarrow> Inr (s\<lparr>engine := e\<rparr>, frame, Fin 0))"

section \<open>Voice activity smoothing and the silence gate\<close>

text \<open>
  Line 275:
  \<^verbatim>\<open>this.vadHistory.reduce((sum, val) => sum + val, 0) / this.vadHistory.length\<close>.
\<close>

definition avgVad :: "number list \<Rightarrow> number" where
  "avgVad h = num_div_count (foldl num_add (Fin 0) h) (length h)"

text \<open>
  \<^verbatim>\<open>updateVadHistory(vad)\<close>, lines 268 to 283: \<^verbatim>\<open>push\<close>, then \<^verbatim>\<open>shift\<close> when
  more than 5 entries are held, then the counter.
\<close>

definition updateVadHistory :: "'e processor \<Rightarrow> number \<Rightarrow> 'e processor" where
  "updateVadHistory s vad =
     (let h = vadHistory s @ [vad];
          h = (if length h > 5 then tl h else h)
      in s\<lparr>vadHistory := h,
            silenceCounter :=
              (if num_lt (avgVad h) (silenceThreshold s) then silenceCounter s + 1 else 0)\<rparr>)"

text \<open>\<^verbatim>\<open>shouldSkipFrame()\<close>, lines 289 to 291.\<close>

definition shouldSkipFrame :: "'e processor \<Rightarrow> bool" where
  "shouldSkipFrame s \<longleftrightarrow> int (silenceCounter s) > maxSilenceFrames s"

section \<open>mergeChannels\<close>

text \<open>
  The inner loop of lines 306 to 318 at sample index \<open>i\<close>: the running pair
  of \<^verbatim>\<open>sum\<close> (here \<open>sm\<close>) and \<^verbatim>\<open>validCount\<close> over the channels, in order.
\<close>

definition accumulate :: "nat \<Rightarrow> number \<times> nat \<Rightarrow> number list \<Rightarrow> number \<times> nat" where
  "accumulate i acc ch =
     (case acc of (sm, validCount) \<Rightarrow>
        if i < length ch then
          (let sample = ch ! i
           in if isFinite sample then (num_add sm sample, validCount + 1) else acc)
        else acc)"

text \<open>Line 321: the quotient or 0, stored in the \<^verbatim>\<open>Float32Array\<close> of line 303.\<close>

definition mergedSample :: "number list list \<Rightarrow> nat \<Rightarrow> number" where
  "mergedSample channels i =
     (case foldl (accumulate i) (Fin 0, 0) channels of (sm, validCount) \<Rightarrow>
        storeFloat32 (if validCount > 0 then num_div_count sm validCount else Fin 0))"

text \<open>\<^verbatim>\<open>mergeChannels(channels)\<close>, lines 298 to 325.\<close>

fun mergeChannels :: "number list list \<Rightarrow> number list" where
  "mergeChannels [] = []"
| "mergeChannels [ch] = ch"
| "mergeChannels (ch0 # chs) = map (mergedSample (ch0 # chs)) [0..<length ch0]"

section \<open>Writing the outputs\<close>

text \<open>
  \<^verbatim>\<open>outputs\<close> is a list of outputs, each a list of channels. The host's arrays are
  written in place; the functions below return their new contents.
  \<^verbatim>\<open>outputSilence(outputs)\<close>, lines 331 to 337.
\<close>

definition outputSilence :: "number list list list \<Rightarrow> number list list list" where
  "outputSilence outputs =
     map (\<lambda>output. map (\<lambda>channel. replicate (length channel) (Fin 0)) output) outputs"

text \<open>\<^verbatim>\<open>outputPassthrough(inputs, outputs)\<close>, lines 344 to 363.\<close>

definition copyToChannel :: "number list \<Rightarrow> number list \<Rightarrow> number list" where
  "copyToChannel sourceChannel channel =
     (if length channel = length sourceChannel then set_from_start channel sourceChannel
      else
        let copyLength = min (length channel) (length sourceChannel)
        in set_from_start channel (take copyLength sourceChannel))"

fun outputPassthrough ::
  "number list list list \<Rightarrow> number list list list \<Rightarrow> number list list list" where
  "outputPassthrough [] outputs = outputSilence outputs"
| "outputPassthrough ([] # _) outputs = outputSilence outputs"
| "outputPassthrough ((sourceChannel # _) # _) outputs =
     map (\<lambda>output. map (copyToChannel sourceChannel) output) outputs"

text \<open>
  \<^verbatim>\<open>outputToChannels(outputs)\<close>, lines 369 to 400: the minimum of line 373 to 378,
  the copying loop of lines 383 to 392 (one pass over all channels per sample index),
  and the trimming of the output buffer.
\<close>

definition samplesToCopy :: "number list \<Rightarrow> number list list list \<Rightarrow> nat" where
  "samplesToCopy buf outputs =
     foldl (\<lambda>n output. foldl (\<lambda>n channel. min n (length channel)) n output)
       (length buf) outputs"

definition writeSample ::
  "number list \<Rightarrow> number list list list \<Rightarrow> nat \<Rightarrow> number list list list" where
  "writeSample buf outputs i =
     map (\<lambda>output. map (\<lambda>channel. if i < length channel then channel[i := buf ! i]
                                    else channel) output) outputs"

definition outputToChannels ::
  "'e processor \<Rightarrow> number list list list \<Rightarrow> 'e processor \<times> number list list list" where
  "outputToChannels s outputs =
     (if length (outputBuffer s) = 0 then (s, outputs)
      else
        let n = samplesToCopy (outputBuffer s) outputs
        in if n = 0 then (s, outputs)
           else
             (s\<lparr>outputBuffer :=
                  (if length (outputBuffer s) > n then drop n (outputBuffer s) else [])\<rparr>,
              foldl (writeSample (outputBuffer s)) outputs [0..<n]))"

section \<open>The render callback\<close>

text \<open>
  The body of the loop of lines 235 to 256 once the frame has been sliced off:
  \<^verbatim>\<open>processFrame\<close>, \<^verbatim>\<open>updateVadHistory\<close>, then the gate; \<^verbatim>\<open>continue\<close> leaves
  the output buffer as it is. An exception of \<^verbatim>\<open>processFrame\<close> is not caught.
\<close>

definition handleFrame ::
  "'e engine \<Rightarrow> 'e processor \<Rightarrow> number list \<Rightarrow> error + 'e processor" where
  "handleFrame eng s frame =
     (case processFrame eng s frame of
        Inl err \<Rightarrow> Inl err
      | Inr (s, processedFrame, vad) \<Rightarrow>
          let s = updateVadHistory s vad
          in if shouldSkipFrame s then Inr s
             else Inr (s\<lparr>outputBuffer := outputBuffer s @ processedFrame\<rparr>))"

text \<open>
  The loop itself. It need not end (it does not when \<open>frameSize\<close> is 0), so it is a
  partial function: \<open>None\<close> stands for a callback that never returns. An exception
  ends it.
\<close>

partial_function (option) processFullFrames ::
  "'e engine \<Rightarrow> 'e processor \<Rightarrow> (error + 'e processor) option" where
  "processFullFrames eng s =
     (if int (length (inputBuffer s)) \<ge> frameSize s then
        case handleFrame eng
               (s\<lparr>inputBuffer := slice_from (frameSize s) (inputBuffer s)\<rparr>)
               (slice_to (frameSize s) (inputBuffer s)) of
          Inl err \<Rightarrow> Some (Inl err)
        | Inr s \<Rightarrow> processFullFrames eng s
      else Some (Inr s))"

text \<open>Lines 229 to 232: the merged samples are appended to the input buffer.\<close>

definition appendInput :: "'e processor \<Rightarrow> number list \<Rightarrow> 'e processor" where
  "appendInput s monoInput = s\<lparr>inputBuffer := inputBuffer s @ monoInput\<rparr>"

text \<open>
  \<^verbatim>\<open>process(inputs, outputs)\<close>, lines 207 to 262: the processor after the call, the
  contents of the output arrays, and the returned flag; or the exception that the call
  throws, after which the host does not call the processor again.
\<close>

definition process ::
  "'e engine \<Rightarrow> 'e processor \<Rightarrow> number list list list \<Rightarrow> number list list list \<Rightarrow>
     (error + ('e processor \<times> number list list list \<times> bool)) option" where
  "process eng s inputs outputs =
     (if isDestroy s then Some (Inr (s, outputs, False))
      else if notInitialized s then Some (Inr (s, outputPassthrough inputs outputs, True))
      else
        case inputs of
          [] \<Rightarrow> Some (Inr (s, outputSilence outputs, True))
        | inputSources # _ \<Rightarrow>
            if length inputSources = 0 then Some (Inr (s, outputSilence outputs, True))
            else
              case processFullFrames eng (appendInput s (mergeChannels inputSources)) of
                None \<Rightarrow> None
              | Some (Inl err) \<Rightarrow> Some (Inl err)
              | Some (Inr s) \<Rightarrow>
                  (case outputToChannels s outputs of
                     (s, outputs) \<Rightarrow> Some (Inr (s, outputs, True))))"

section \<open>destroy\<close>

text \<open>
  The calls \<^verbatim>\<open>destroy\<close> makes into the engine, in order. They are foreign calls
  outside any \<^verbatim>\<open>try\<close>; they are taken to return.
\<close>

datatype engine_call = Rnnoise_destroy int | Free int

text \<open>
  \<^verbatim>\<open>destroy()\<close>, lines 405 to 435: the processor afterwards and the engine calls
  made.
\<close>

definition destroy :: "'e processor \<Rightarrow> 'e processor \<times> engine_call list" where
  "destroy s0 =
     (let s = s0\<lparr>isDestroy := True\<rparr>;
          (s, calls) =
            (case rnnoiseModule s of
               None \<Rightarrow> (s, [])
             | Some m \<Rightarrow>
                 let (s, c1) =
                       (if state s \<noteq> 0 \<and> has_rnnoise_destroy m
                        then (s\<lparr>state := 0\<rparr>, [Rnnoise_destroy (state s)])
                        else (s, []));
                     (s, c2) =
                       (if pcmInputBuf s \<noteq> 0 \<and> has_free m
                        then (s\<lparr>pcmInputBuf := 0\<rparr>, [Free (pcmInputBuf s)])
                        else (s, []));
                     (s, c3) =
                       (if pcmOutputBuf s \<noteq> 0 \<and> has_free m
                        then (s\<lparr>pcmOutputBuf := 0\<rparr>, [Free (pcmOutputBuf s)])
                        else (s, []))
                 in (s\<lparr>rnnoiseModule := None, memory := None\<rparr>, c1 @ c2 @ c3))
      in (s\<lparr>inputBuffer := [], outputBuffer := [], vadHistory := [],
             silenceCounter := 0\<rparr>,
          calls))"

section \<open>Reference notions for the properties\<close>

text \<open>
  The full frames of a sample sequence, in order: what repeated extraction of \<open>n\<close>
  leading samples yields while at least \<open>n\<close> samples are left.
\<close>

function fullFrames :: "nat \<Rightarrow> 'a list \<Rightarrow> 'a list list" where
  "fullFrames n xs =
     (if 0 < n \<and> n \<le> length xs then take n xs # fullFrames n (drop n xs) else [])"
  by pat_completeness auto
termination
  by (relation "measure (\<lambda>(n, xs). length xs)") auto

declare fullFrames.simps [simp del]

text \<open>
  The loop body applied to each frame of a list in turn, up to the first exception.
\<close>

fun handleFrames ::
  "'e engine \<Rightarrow> 'e processor \<Rightarrow> number list list \<Rightarrow> error + 'e processor" where
  "handleFrames eng s [] = Inr s"
| "handleFrames eng s (frame # rest) =
     (case handleFrame eng s frame of
        Inl err \<Rightarrow> Inl err
      | Inr s' \<Rightarrow> handleFrames eng s' rest)"

text \<open>
  The processor after the loop body has handled a frame, that is the processor as it
  was when the body throws.
\<close>

definition afterFrame :: "'e engine \<Rightarrow> 'e processor \<Rightarrow> number list \<Rightarrow> 'e processor" where
  "afterFrame eng s frame = (case handleFrame eng s frame of Inl err \<Rightarrow> s | Inr s' \<Rightarrow> s')"

text \<open>
  A sequence of appends to the input buffer, each followed by the extraction loop
  (lines 229 to 256 of successive callbacks).
\<close>

fun feedChunks ::
  "'e engine \<Rightarrow> 'e processor \<Rightarrow> number list list \<Rightarrow> (error + 'e processor) option" where
  "feedChunks eng s [] = Some (Inr s)"
| "feedChunks eng s (samples # rest) =
     (case processFullFrames eng (appendInput s samples) of
        None \<Rightarrow> None
      | Some (Inl err) \<Rightarrow> Some (Inl err)
      | Some (Inr s') \<Rightarrow> feedChunks eng s' rest)"

text \<open>A sequence of render callbacks, each with its inputs and its output arrays.\<close>

fun callbacks ::
  "'e engine \<Rightarrow> 'e processor \<Rightarrow> (number list list list \<times> number list list list) list \<Rightarrow>
     (error + 'e processor) option" where
  "callbacks eng s [] = Some (Inr s)"
| "callbacks eng s ((inputs, outputs) # rest) =
     (case process eng s inputs outputs of
        None \<Rightarrow> None
      | Some (Inl err) \<Rightarrow> Some (Inl err)
      | Some (Inr (s', outputs', continue)) \<Rightarrow> callbacks eng s' rest)"

text \<open>
  The finite values of a binary format: \<open>m * 2 ^ e\<close> with a significand below
  \<open>2 ^ p\<close> and an exponent that the format allows.
\<close>

definition representable :: "nat \<Rightarrow> int \<Rightarrow> int \<Rightarrow> real \<Rightarrow> bool" where
  "representable p emin emax x \<longleftrightarrow>
     (\<exists>m e :: int. \<bar>m\<bar> < 2 ^ p \<and> emin - int p + 1 \<le> e \<and> e \<le> emax - int p + 1 \<and>
        x = of_int m * pow2 e)"

definition float64 :: "real \<Rightarrow> bool" where
  "float64 = representable 53 (- 1022) 1023"

text \<open>
  The spacing of the values of a format around a non-zero \<open>x\<close>, to a multiple of
  which \<open>x\<close> is rounded; and the negation of a number.
\<close>

definition spacing :: "nat \<Rightarrow> int \<Rightarrow> real \<Rightarrow> real" where
  "spacing p emin x = pow2 (max (exponent \<bar>x\<bar>) emin - int p + 1)"

fun negate :: "number \<Rightarrow> number" where
  "negate (Fin x) = Fin (- x)"
| "negate NaN = NaN"
| "negate PInf = NInf"
| "negate NInf = PInf"

text \<open>
  The finite values of the binary32 format, in which a \<^verbatim>\<open>Float32Array\<close> stores its
  samples: \<open>m * 2 ^ e\<close> with a significand below \<open>2 ^ 24\<close> and an exponent from \<open>- 149\<close>
  to \<open>104\<close>.
\<close>

definition float32 :: "real \<Rightarrow> bool" where
  "float32 x \<longleftrightarrow>
     (\<exists>m e :: int. \<bar>m\<bar> < 2 ^ 24 \<and> - 149 \<le> e \<and> e \<le> 104 \<and> x = of_int m * 2 powr of_int e)"

text \<open>A number that is a finite binary32 value, as a score returned by the engine is.\<close>

fun binary32 :: "number \<Rightarrow> bool" where
  "binary32 (Fin x) = float32 x"
| "binary32 NaN = False"
| "binary32 PInf = False"
| "binary32 NInf = False"

text \<open>
  What \<^verbatim>\<open>processFrame\<close> returns for each frame of a list, the engine state being
  carried from one call to the next: the processed frame and its score.
\<close>

fun engineRun ::
  "'e engine \<Rightarrow> 'e processor \<Rightarrow> number list list \<Rightarrow> error + (number list \<times> number) list" where
  "engineRun eng s [] = Inr []"
| "engineRun eng s (frame # rest) =
     (case processFrame eng s frame of
        Inl err \<Rightarrow> Inl err
      | Inr (s', processedFrame, vad) \<Rightarrow>
          (case engineRun eng s' rest of
             Inl err \<Rightarrow> Inl err
           | Inr run \<Rightarrow> Inr ((processedFrame, vad) # run)))"

text \<open>The arithmetic mean of finite values.\<close>

definition arithmeticMean :: "real list \<Rightarrow> real" where
  "arithmeticMean rs = sum_list rs / real (length rs)"

text \<open>The finite values that a list of channels holds at sample index \<open>i\<close>.\<close>

definition finiteValuesAt :: "number list list \<Rightarrow> nat \<Rightarrow> real list" where
  "finiteValuesAt channels i =
     concat (map (\<lambda>ch. if i < length ch then (case ch ! i of Fin x \<Rightarrow> [x] | _ \<Rightarrow> [])
                         else []) channels)"

section \<open>Example objects\<close>

text \<open>
  A processor after a successful initialisation with frame size 2, an engine that
  echoes its input with score 0 and counts its calls, and an engine whose call always
  throws.
\<close>

definition readyProcessor :: "nat processor" where
  "readyProcessor =
     (constructor 0)\<lparr>rnnoiseModule := Some \<lparr>has_rnnoise_destroy = True, has_free = True\<rparr>,
                      memory := Some WasmMemory, state := 1024, frameSize := 2,
                      pcmInputBuf := 2048, pcmOutputBuf := 4096\<rparr>"

definition echoEngine :: "nat engine" where
  "echoEngine e scaledFrame =
     Returned (Suc e) (\<lambda>i. if i < length scaledFrame then scaledFrame ! i else Fin 0) (Fin 0)"

definition throwingEngine :: "nat engine" where
  "throwingEngine e scaledFrame = Threw (Suc e)"

text \<open>
  The example processor with frame size 1, \<open>maxSilenceFrames = 2\<close> and five samples
  waiting in the input buffer.
\<close>

definition gateExample :: "nat processor" where
  "gateExample =
     readyProcessor\<lparr>frameSize := 1, maxSilenceFrames := 2,
                    inputBuffer := [Fin (1/8), Fin (2/8), Fin (3/8), Fin (4/8), Fin (5/8)]\<rparr>"

text \<open>The example processor with samples waiting in both buffers.\<close>

definition pendingProcessor :: "nat processor" where
  "pendingProcessor = readyProcessor\<lparr>inputBuffer := [Fin 1], outputBuffer := [Fin 1, Fin 2]\<rparr>"

text \<open>An instance that exports a memory and every required function but \<^verbatim>\<open>free\<close>.\<close>

definition brokenInstance :: "nat wasm_instance" where
  "brokenInstance =
     \<lparr> exported = (\<lambda>name. name \<noteq> ''free''), exported_memory = Some WasmMemory,
       wasm_call_ctors_returns = True, rnnoise_create = Some 1024,
       rnnoise_get_frame_size = Some 480, malloc_input = Some 2048,
       malloc_output = Some 4096, started = 0 \<rparr>"

text \<open>
  The binary64 value nearest to 0.7, and the example processor with this value as its
  threshold.
\<close>

definition seventenths :: real where
  "seventenths = 3152519739159347 / 4503599627370496"

definition thresholdExample :: "nat processor" where
  "thresholdExample = readyProcessor\<lparr>silenceThreshold := Fin seventenths\<rparr>"

text \<open>The binary32 values nearest to 0.1 and to 0.2.\<close>

definition tenth32 :: real where
  "tenth32 = 13421773 / 134217728"

definition fifth32 :: real where
  "fifth32 = 13421773 / 67108864"

text \<open>
  An instance whose engine reports the frame size \<open>- 1\<close> and whose other calls
  succeed.
\<close>

definition negativeInstance :: "nat wasm_instance" where
  "negativeInstance =
     \<lparr> exported = (\<lambda>name. True), exported_memory = Some WasmMemory,
       wasm_call_ctors_returns = True, rnnoise_create = Some 1024,
       rnnoise_get_frame_size = Some (- 1), malloc_input = Some 2048,
       malloc_output = Some 4096, started = 0 \<rparr>"

section \<open>Properties\<close>

subsection \<open>Rounding\<close>

lemma pow2_powr: "pow2 k = 2 powr of_int k"
  by (simp add: pow2_def powr_int)

lemma pow2_pos [simp]: "0 < pow2 k" by (simp add: pow2_powr)
lemma pow2_nonneg [simp]: "0 \<le> pow2 k" by (simp add: pow2_powr)
lemma pow2_neq0 [simp]: "pow2 k \<noteq> 0" by (simp add: pow2_powr)
lemma pow2_add: "pow2 (a + b) = pow2 a * pow2 b" by (simp add: pow2_powr powr_add)
lemma pow2_diff: "pow2 (a - b) = pow2 a / pow2 b" by (simp add: pow2_powr powr_diff)
lemma pow2_le_iff [simp]: "pow2 a \<le> pow2 b \<longleftrightarrow> a \<le> b" by (simp add: pow2_powr)
lemma pow2_less_iff [simp]: "pow2 a < pow2 b \<longleftrightarrow> a < b" by (simp add: pow2_powr)
lemma pow2_0 [simp]: "pow2 0 = 1" by (simp add: pow2_def)
lemma pow2_not_le0 [simp]: "\<not> pow2 k \<le> 0" by (simp add: pow2_powr not_le)

lemma pow2_of_nat: "pow2 (int n) = 2 ^ n"
  by (simp add: pow2_def)

lemma exponent_floor_log: "0 < x \<Longrightarrow> exponent x = \<lfloor>log 2 x\<rfloor>"
proof (induction x rule: exponent.induct)
  case (1 x)
  show ?case
  proof (cases "2 \<le> x")
    case True
    then have "log 2 (x / 2) = log 2 x - 1" by (simp add: log_divide)
    with 1 True show ?thesis by (subst exponent.simps) simp
  next
    case False
    show ?thesis
    proof (cases "x < 1")
      case True
      with 1(3) have "log 2 (2 * x) = 1 + log 2 x" by (simp add: log_mult)
      with 1 True False show ?thesis by (subst exponent.simps) simp
    next
      case False
      with \<open>\<not> 2 \<le> x\<close> have "1 \<le> x" "x < 2" by simp_all
      then have "\<lfloor>log 2 x\<rfloor> = 0"
        using floor_log_eq_powr_iff [of x 2 0] by simp
      with False \<open>\<not> 2 \<le> x\<close> 1(3) show ?thesis by (subst exponent.simps) simp
    qed
  qed
qed

lemma round_half_even_int [simp]: "round_half_even (of_int k) = k"
  by (simp add: round_half_even_def)

lemma round_half_even_le_ceiling: "round_half_even r \<le> \<lceil>r\<rceil>"
  unfolding round_half_even_def Let_def by (auto simp: ceiling_altdef)

lemma round_half_even_ge_floor: "\<lfloor>r\<rfloor> \<le> round_half_even r"
  unfolding round_half_even_def Let_def by auto

lemma exponent_bounds:
  assumes "x \<noteq> 0"
  shows "pow2 (exponent \<bar>x\<bar>) \<le> \<bar>x\<bar>" and "\<bar>x\<bar> < pow2 (exponent \<bar>x\<bar> + 1)"
proof -
  have pos: "0 < \<bar>x\<bar>" using assms by simp
  from floor_log_eq_powr_iff [OF pos, of 2 "\<lfloor>log 2 \<bar>x\<bar>\<rfloor>"]
  show "pow2 (exponent \<bar>x\<bar>) \<le> \<bar>x\<bar>" and "\<bar>x\<bar> < pow2 (exponent \<bar>x\<bar> + 1)"
    by (simp_all add: pow2_powr exponent_floor_log [OF pos])
qed

lemma exponent_eqI:
  assumes "pow2 e \<le> \<bar>x\<bar>" and "\<bar>x\<bar> < pow2 (e + 1)"
  shows "exponent \<bar>x\<bar> = e"
proof -
  have pos: "0 < \<bar>x\<bar>" using assms(1) pow2_pos [of e] by linarith
  from floor_log_eq_powr_iff [OF pos, of 2 e] assms show ?thesis
    by (simp add: pow2_powr exponent_floor_log [OF pos])
qed

lemma spacing_pos [simp]: "0 < spacing p emin x"
  by (simp add: spacing_def)

lemma spacing_nonneg [simp]: "0 \<le> spacing p emin x"
  by (simp add: spacing_def)

lemma spacing_neq0 [simp]: "spacing p emin x \<noteq> 0"
  by (simp add: spacing_def)

lemma multiple_times_spacing:
  "y / spacing p emin x = of_int k \<Longrightarrow> y = of_int k * spacing p emin x"
  by (simp add: nonzero_divide_eq_eq)

lemma round_nearest_nonzero:
  "x \<noteq> 0 \<Longrightarrow>
   round_nearest p emin emax x =
     (let y = of_int (round_half_even (x / spacing p emin x)) * spacing p emin x
      in if pow2 (emax + 1) \<le> \<bar>y\<bar> then (if 0 < y then PInf else NInf) else Fin y)"
  by (simp add: round_nearest_def spacing_def Let_def)

lemma representable_bound:
  assumes "x = of_int m * pow2 e" and "\<bar>m\<bar> < 2 ^ p"
  shows "\<bar>x\<bar> < pow2 (int p + e)"
proof -
  have "\<bar>real_of_int m\<bar> < 2 ^ p"
    using assms(2) by (metis of_int_abs of_int_less_numeral_power_cancel_iff)
  then have "\<bar>real_of_int m\<bar> * pow2 e < 2 ^ p * pow2 e"
    by (simp add: mult_less_cancel_right)
  then show ?thesis
    by (simp add: assms(1) abs_mult pow2_add pow2_of_nat)
qed

text \<open>
  A representable value of magnitude at least that of x, or any representable value
  when x is in the lowest binade, is a whole multiple of the spacing at x.
\<close>

lemma multiple_of_pow2:
  assumes "b \<le> e"
  shows "\<exists>k :: int. of_int m * pow2 e / pow2 b = of_int k"
proof -
  define d where "d = nat (e - b)"
  have e: "e = b + int d" using assms by (simp add: d_def)
  have "of_int m * pow2 e / pow2 b = of_int (m * 2 ^ d)"
    by (simp add: e pow2_add pow2_of_nat)
  then show ?thesis by blast
qed

lemma multiple_of_spacing:
  assumes y: "y = of_int m * pow2 e" "\<bar>m\<bar> < 2 ^ p" "emin - int p + 1 \<le> e"
    and big: "pow2 (exponent \<bar>x\<bar>) \<le> \<bar>y\<bar>"
  shows "\<exists>k :: int. y / spacing p emin x = of_int k"
proof -
  let ?L = "exponent \<bar>x\<bar>"
  have "pow2 ?L < pow2 (int p + e)"
    using big representable_bound [OF y(1,2)] by linarith
  then have "?L \<le> int p + e - 1" by simp
  with y(3) have "max ?L emin - int p + 1 \<le> e" by simp
  from multiple_of_pow2 [OF this, of m] show ?thesis
    by (simp add: y(1) spacing_def)
qed

lemma multiple_of_spacing_low:
  assumes y: "y = of_int m * pow2 e" "emin - int p + 1 \<le> e"
    and low: "exponent \<bar>x\<bar> \<le> emin"
  shows "\<exists>k :: int. y / spacing p emin x = of_int k"
proof -
  from low have E: "max (exponent \<bar>x\<bar>) emin = emin" by simp
  from y(2) have "emin - int p + 1 \<le> e" .
  from multiple_of_pow2 [OF this, of m] show ?thesis
    by (simp add: y(1) spacing_def E)
qed

lemma round_nearest_representable:
  assumes "representable p emin emax x"
  shows "round_nearest p emin emax x = Fin x"
proof (cases "x = 0")
  case True
  then show ?thesis by (simp add: round_nearest_def)
next
  case False
  from assms obtain m e :: int where m: "\<bar>m\<bar> < 2 ^ p" and e: "emin - int p + 1 \<le> e"
    "e \<le> emax - int p + 1" and x: "x = of_int m * pow2 e"
    unfolding representable_def by blast
  have "pow2 (exponent \<bar>x\<bar>) \<le> \<bar>x\<bar>" using False by (rule exponent_bounds)
  from multiple_of_spacing [OF x m e(1) this]
  obtain k :: int where k: "x / spacing p emin x = of_int k" by blast
  then have "x = of_int k * spacing p emin x"
    by (rule multiple_times_spacing)
  then have y: "of_int (round_half_even (x / spacing p emin x)) * spacing p emin x = x"
    by (simp add: k)
  have "\<bar>x\<bar> < pow2 (int p + e)" using x m by (rule representable_bound)
  also have "\<dots> \<le> pow2 (emax + 1)" using e(2) by simp
  finally have "\<not> pow2 (emax + 1) \<le> \<bar>x\<bar>" by simp
  then show ?thesis
    using False by (simp add: round_nearest_nonzero y Let_def)
qed

lemma rounded_nonneg:
  assumes "0 < x"
  shows "0 \<le> of_int (round_half_even (x / spacing p emin x)) * spacing p emin x"
proof -
  have "0 \<le> x / spacing p emin x"
    using assms less_imp_le [OF spacing_pos [of p emin x]] by (intro divide_nonneg_nonneg) simp_all
  then have "0 \<le> \<lfloor>x / spacing p emin x\<rfloor>" by simp
  with round_half_even_ge_floor [of "x / spacing p emin x"]
  have "0 \<le> round_half_even (x / spacing p emin x)" by linarith
  then show ?thesis by simp
qed

text \<open>Rounding a positive x does not pass a representable value above it.\<close>

lemma round_nearest_pos_upper:
  assumes x: "0 < x" and le: "x \<le> y" and rep: "representable p emin emax y"
  shows "\<exists>r. round_nearest p emin emax x = Fin r \<and> 0 \<le> r \<and> r \<le> y"
proof -
  let ?u = "spacing p emin x"
  let ?r = "of_int (round_half_even (x / ?u)) * ?u"
  from rep obtain m e :: int where m: "\<bar>m\<bar> < 2 ^ p" and e: "emin - int p + 1 \<le> e"
    "e \<le> emax - int p + 1" and y: "y = of_int m * pow2 e"
    unfolding representable_def by blast
  have x0: "x \<noteq> 0" using x by simp
  have "pow2 (exponent \<bar>x\<bar>) \<le> \<bar>x\<bar>" using x0 by (rule exponent_bounds)
  also have "\<bar>x\<bar> \<le> \<bar>y\<bar>" using x le by simp
  finally have "pow2 (exponent \<bar>x\<bar>) \<le> \<bar>y\<bar>" .
  from multiple_of_spacing [OF y m e(1) this]
  obtain k :: int where k: "y / ?u = of_int k" by blast
  have yk: "y = of_int k * ?u" using k by (rule multiple_times_spacing)
  have "x / ?u \<le> of_int k"
    using le by (simp add: yk pos_divide_le_eq)
  then have "\<lceil>x / ?u\<rceil> \<le> k" by (simp add: ceiling_le_iff)
  with round_half_even_le_ceiling [of "x / ?u"] have "round_half_even (x / ?u) \<le> k"
    by linarith
  then have ry: "?r \<le> y" by (simp add: yk)
  have r0: "0 \<le> ?r" using x by (rule rounded_nonneg)
  have "\<bar>y\<bar> < pow2 (int p + e)" using y m by (rule representable_bound)
  also have "\<dots> \<le> pow2 (emax + 1)" using e(2) by simp
  finally have "\<bar>y\<bar> < pow2 (emax + 1)" .
  with ry r0 have "\<not> pow2 (emax + 1) \<le> \<bar>?r\<bar>" by linarith
  then have "round_nearest p emin emax x = Fin ?r"
    using x0 by (simp add: round_nearest_nonzero Let_def)
  with r0 ry show ?thesis by blast
qed

text \<open>Rounding a positive x does not pass a representable value between 0 and x.\<close>

lemma round_nearest_pos_lower:
  assumes x: "0 < x" and y0: "0 \<le> y" and le: "y \<le> x" and rep: "representable p emin emax y"
    and p: "0 < p"
  shows "round_nearest p emin emax x = PInf \<or> (\<exists>r. round_nearest p emin emax x = Fin r \<and> y \<le> r)"
proof -
  let ?u = "spacing p emin x"
  let ?q = "round_half_even (x / ?u)"
  let ?r = "of_int ?q * ?u"
  let ?L = "exponent \<bar>x\<bar>"
  from rep obtain m e :: int where m: "\<bar>m\<bar> < 2 ^ p" and e: "emin - int p + 1 \<le> e"
    "e \<le> emax - int p + 1" and y: "y = of_int m * pow2 e"
    unfolding representable_def by blast
  have x0: "x \<noteq> 0" using x by simp
  have r0: "0 \<le> ?r" using x by (rule rounded_nonneg)
  have yr: "y \<le> ?r"
  proof (cases "pow2 ?L \<le> \<bar>y\<bar> \<or> ?L \<le> emin")
    case True
    then have "\<exists>k :: int. y / ?u = of_int k"
      using multiple_of_spacing [OF y m e(1)] multiple_of_spacing_low [OF y e(1)] by blast
    then obtain k :: int where k: "y / ?u = of_int k" by blast
    have yk: "y = of_int k * ?u" using k by (rule multiple_times_spacing)
    have "of_int k \<le> x / ?u"
      using le by (simp add: yk pos_le_divide_eq)
    then have "k \<le> \<lfloor>x / ?u\<rfloor>" by (simp add: le_floor_iff)
    with round_half_even_ge_floor [of "x / ?u"] have "k \<le> ?q" by linarith
    then show ?thesis by (simp add: yk)
  next
    case False
    then have small: "\<bar>y\<bar> < pow2 ?L" and normal: "emin < ?L" by simp_all
    then have u: "?u = pow2 (?L - int p + 1)" by (simp add: spacing_def)
    have "pow2 ?L \<le> \<bar>x\<bar>" using x0 by (rule exponent_bounds)
    then have "pow2 ?L \<le> x" using x by simp
    moreover have "pow2 ?L = of_int (2 ^ (p - 1)) * ?u"
    proof -
      have "pow2 ?L = pow2 (int (p - 1) + (?L - int p + 1))"
        using p by (simp add: of_nat_diff)
      then show ?thesis unfolding u pow2_add by (simp add: pow2_of_nat)
    qed
    ultimately have "of_int (2 ^ (p - 1)) \<le> x / ?u"
      by (simp add: pos_le_divide_eq)
    then have "2 ^ (p - 1) \<le> \<lfloor>x / ?u\<rfloor>" by (simp add: le_floor_iff)
    with round_half_even_ge_floor [of "x / ?u"] have "2 ^ (p - 1) \<le> ?q" by linarith
    then have "of_int (2 ^ (p - 1)) * ?u \<le> ?r"
      by (simp only: mult_le_cancel_right_pos [OF spacing_pos] of_int_le_iff)
    with \<open>pow2 ?L = of_int (2 ^ (p - 1)) * ?u\<close> have "pow2 ?L \<le> ?r" by simp
    with small show ?thesis by linarith
  qed
  show ?thesis
  proof (cases "pow2 (emax + 1) \<le> \<bar>?r\<bar>")
    case True
    with r0 have "0 < ?r" using pow2_pos [of "emax + 1"] by linarith
    with True have "round_nearest p emin emax x = PInf"
      using x0 by (simp add: round_nearest_nonzero Let_def)
    then show ?thesis by simp
  next
    case False
    then have "round_nearest p emin emax x = Fin ?r"
      using x0 by (simp add: round_nearest_nonzero Let_def)
    with yr show ?thesis by blast
  qed
qed

lemma round_half_even_minus: "round_half_even (- r) = - round_half_even r"
proof (cases "r = of_int \<lfloor>r\<rfloor>")
  case True
  then obtain k :: int where "r = of_int k" ..
  then have "- r = of_int (- k)" by simp
  then show ?thesis unfolding \<open>r = of_int k\<close> by (simp only: round_half_even_int)
next
  case False
  define f where "f = \<lfloor>r\<rfloor>"
  define d where "d = r - of_int f"
  have "of_int f \<le> r" "r < of_int f + 1" unfolding f_def by linarith+
  with False have d: "0 < d" "d < 1" unfolding d_def f_def by linarith+
  have r: "r = of_int f + d" by (simp add: d_def)
  have fl: "\<lfloor>- r\<rfloor> = - f - 1"
    using d by (intro floor_unique) (simp_all add: r)
  have d': "- r - of_int (- f - 1) = 1 - d" by (simp add: r)
  have ev: "even (- f - 1) \<longleftrightarrow> odd f" by simp
  have lhs: "round_half_even (- r) =
      (if 1 - d < 1 / 2 then - f - 1 else if 1 / 2 < 1 - d then - f
       else if odd f then - f - 1 else - f)"
    unfolding round_half_even_def Let_def fl d' ev by simp
  have rhs: "round_half_even r =
      (if d < 1 / 2 then f else if 1 / 2 < d then f + 1 else if even f then f else f + 1)"
    unfolding round_half_even_def Let_def f_def [symmetric] d_def [symmetric] ..
  show ?thesis unfolding lhs rhs using d by auto
qed

lemma spacing_minus [simp]: "spacing p emin (- x) = spacing p emin x"
  by (simp add: spacing_def)

lemma round_nearest_minus: "round_nearest p emin emax (- x) = negate (round_nearest p emin emax x)"
proof (cases "x = 0")
  case True
  then show ?thesis by (simp add: round_nearest_def)
next
  case False
  let ?y = "of_int (round_half_even (x / spacing p emin x)) * spacing p emin x"
  have "of_int (round_half_even (- x / spacing p emin x)) * spacing p emin x = - ?y"
    by (simp add: round_half_even_minus flip: minus_divide_left)
  with False show ?thesis
    using pow2_pos [of "emax + 1"] by (simp add: round_nearest_nonzero Let_def not_le not_less)
qed

lemma representable_minus: "representable p emin emax (- x) = representable p emin emax x"
proof -
  have "representable p emin emax (- y)" if "representable p emin emax y" for y
  proof -
    from that obtain m e :: int where "\<bar>m\<bar> < 2 ^ p" "emin - int p + 1 \<le> e"
      "e \<le> emax - int p + 1" "y = of_int m * pow2 e"
      unfolding representable_def by blast
    then have "\<bar>- m\<bar> < 2 ^ p \<and> emin - int p + 1 \<le> e \<and> e \<le> emax - int p + 1 \<and>
        - y = of_int (- m) * pow2 e" by simp
    then show ?thesis unfolding representable_def by blast
  qed
  from this [of x] this [of "- x"] show ?thesis by auto
qed

lemma representable_0 [simp]: "0 < p \<Longrightarrow> emin \<le> emax \<Longrightarrow> representable p emin emax 0"
  unfolding representable_def by (intro exI [of _ 0] exI [of _ "emin - int p + 1"]) simp

text \<open>Rounding stays between representable values that enclose the argument.\<close>

lemma round_nearest_nonneg_between:
  assumes x: "0 \<le> x" and lo: "lo \<le> x" and hi: "x \<le> hi"
    and rlo: "representable p emin emax lo" and rhi: "representable p emin emax hi"
    and p: "0 < p"
  shows "\<exists>r. round_nearest p emin emax x = Fin r \<and> lo \<le> r \<and> r \<le> hi"
proof (cases "x = 0")
  case True
  with lo hi show ?thesis by (simp add: round_nearest_def)
next
  case False
  with x have pos: "0 < x" by simp
  from round_nearest_pos_upper [OF pos hi rhi]
  obtain r where r: "round_nearest p emin emax x = Fin r" "0 \<le> r" "r \<le> hi" by blast
  show ?thesis
  proof (cases "0 \<le> lo")
    case True
    from round_nearest_pos_lower [OF pos True lo rlo p] r(1) have "lo \<le> r" by simp
    with r show ?thesis by blast
  next
    case False
    with r show ?thesis by (intro exI [of _ r]) simp
  qed
qed

lemma round_nearest_between:
  assumes lo: "lo \<le> x" and hi: "x \<le> hi"
    and rlo: "representable p emin emax lo" and rhi: "representable p emin emax hi"
    and p: "0 < p"
  shows "\<exists>r. round_nearest p emin emax x = Fin r \<and> lo \<le> r \<and> r \<le> hi"
proof (cases "0 \<le> x")
  case True
  then show ?thesis using lo hi rlo rhi p by (rule round_nearest_nonneg_between)
next
  case False
  then have "0 \<le> - x" by simp
  moreover have "- hi \<le> - x" "- x \<le> - lo" using lo hi by simp_all
  moreover have "representable p emin emax (- hi)" "representable p emin emax (- lo)"
    using rlo rhi by (simp_all add: representable_minus)
  ultimately obtain r where r: "round_nearest p emin emax (- x) = Fin r" "- hi \<le> r" "r \<le> - lo"
    using p round_nearest_nonneg_between [of "- x" "- hi" "- lo" p emin emax] by blast
  from r(1) have "round_nearest p emin emax x = Fin (- r)"
    unfolding round_nearest_minus by (cases "round_nearest p emin emax x") simp_all
  with r(2,3) show ?thesis by (intro exI [of _ "- r"]) simp
qed

text \<open>Evaluating a rounding once the binade of the argument is known.\<close>

lemma round_nearest_eval:
  assumes "pow2 e \<le> \<bar>x\<bar>" and "\<bar>x\<bar> < pow2 (e + 1)"
  shows "round_nearest p emin emax x =
     (let u = pow2 (max e emin - int p + 1);
          y = of_int (round_half_even (x / u)) * u
      in if pow2 (emax + 1) \<le> \<bar>y\<bar> then (if 0 < y then PInf else NInf) else Fin y)"
proof -
  have "x \<noteq> 0" using assms(1) pow2_pos [of e] by auto
  then show ?thesis
    by (simp add: round_nearest_def exponent_eqI [OF assms])
qed

lemma round_half_even_eval:
  assumes "of_int f \<le> r" and "r < of_int f + 1"
  shows "round_half_even r =
     (let d = r - of_int f
      in if d < 1 / 2 then f else if 1 / 2 < d then f + 1 else if even f then f else f + 1)"
proof -
  have "\<lfloor>r\<rfloor> = f" using assms by (intro floor_unique) simp_all
  then show ?thesis by (simp add: round_half_even_def)
qed

lemma round_nearest_0 [simp]: "round_nearest p emin emax 0 = Fin 0"
  by (simp add: round_nearest_def)

lemma round64_0 [simp]: "round64 0 = Fin 0"
  by (simp add: round64_def)

lemma round32_0 [simp]: "round32 0 = Fin 0"
  by (simp add: round32_def)

lemma float32_representable: "float32 x \<longleftrightarrow> representable 24 (- 126) 127 x"
  by (simp add: float32_def representable_def pow2_powr)

lemma float64_scaled:
  assumes "float32 x" and "k < 2 ^ 29"
  shows "float64 (real k * x)"
proof -
  from assms(1) obtain m e :: int where m: "\<bar>m\<bar> < 2 ^ 24" and e: "- 149 \<le> e" "e \<le> 104"
    and x: "x = of_int m * pow2 e"
    unfolding float32_representable representable_def by auto
  have "\<bar>int k * m\<bar> = int k * \<bar>m\<bar>" by (simp add: abs_mult)
  also have "\<dots> \<le> int k * 2 ^ 24" using m by (intro mult_left_mono) simp_all
  also have "\<dots> < 2 ^ 29 * 2 ^ 24" using assms(2) by simp
  finally have "\<bar>int k * m\<bar> < 2 ^ 53" by simp
  moreover have "real k * x = of_int (int k * m) * pow2 e" by (simp add: x)
  ultimately show ?thesis
    unfolding float64_def representable_def using e
    by (intro exI [of _ "int k * m"] exI [of _ e]) simp
qed

lemma float32_float64: "float32 x \<Longrightarrow> float64 x"
  using float64_scaled [of x 1] by simp

lemma round64_float64: "float64 x \<Longrightarrow> round64 x = Fin x"
  unfolding float64_def round64_def by (rule round_nearest_representable)

lemma round32_float32: "float32 x \<Longrightarrow> round32 x = Fin x"
  unfolding float32_representable round32_def by (rule round_nearest_representable)

lemma round64_between:
  assumes "lo \<le> x" and "x \<le> hi" and "float64 lo" and "float64 hi"
  shows "\<exists>r. round64 x = Fin r \<and> lo \<le> r \<and> r \<le> hi"
  using assms unfolding float64_def round64_def by (intro round_nearest_between) simp_all

lemma round32_between:
  assumes "lo \<le> x" and "x \<le> hi" and "float32 lo" and "float32 hi"
  shows "\<exists>r. round32 x = Fin r \<and> lo \<le> r \<and> r \<le> hi"
  using assms unfolding float32_representable round32_def
  by (intro round_nearest_between) simp_all

lemma float64I:
  assumes "x = of_int m * pow2 e" and "\<bar>m\<bar> < 2 ^ 53" and "- 1074 \<le> e" and "e \<le> 971"
  shows "float64 x"
  unfolding float64_def representable_def using assms by (intro exI [of _ m] exI [of _ e]) simp

lemma float32I:
  assumes "x = of_int m * pow2 e" and "\<bar>m\<bar> < 2 ^ 24" and "- 149 \<le> e" and "e \<le> 104"
  shows "float32 x"
  unfolding float32_representable representable_def using assms
  by (intro exI [of _ m] exI [of _ e]) simp

text \<open>Evaluating a binary64 rounding once the binade of the argument is known.\<close>

lemma round64_eval:
  assumes "pow2 e \<le> \<bar>x\<bar>" and "\<bar>x\<bar> < pow2 (e + 1)" and "- 1022 \<le> e" and "e < 1023"
    and "of_int f \<le> x / pow2 (e - 52)" and "x / pow2 (e - 52) < of_int f + 1"
    and "g = (let d = x / pow2 (e - 52) - of_int f
              in if d < 1 / 2 then f else if 1 / 2 < d then f + 1
                 else if even f then f else f + 1)"
    and "\<bar>of_int g * pow2 (e - 52)\<bar> < pow2 1024"
  shows "round64 x = Fin (of_int g * pow2 (e - 52))"
proof -
  have "round_half_even (x / pow2 (e - 52)) = g"
    unfolding assms(7) using assms(5,6) by (rule round_half_even_eval)
  moreover have "max e (- 1022) - int 53 + 1 = e - 52" using assms(3) by simp
  ultimately show ?thesis
    unfolding round64_def round_nearest_eval [OF assms(1,2)] using assms(8)
    by (simp add: Let_def)
qed

lemma round32_eval:
  assumes "pow2 e \<le> \<bar>x\<bar>" and "\<bar>x\<bar> < pow2 (e + 1)" and "- 126 \<le> e" and "e < 127"
    and "of_int f \<le> x / pow2 (e - 23)" and "x / pow2 (e - 23) < of_int f + 1"
    and "g = (let d = x / pow2 (e - 23) - of_int f
              in if d < 1 / 2 then f else if 1 / 2 < d then f + 1
                 else if even f then f else f + 1)"
    and "\<bar>of_int g * pow2 (e - 23)\<bar> < pow2 128"
  shows "round32 x = Fin (of_int g * pow2 (e - 23))"
proof -
  have "round_half_even (x / pow2 (e - 23)) = g"
    unfolding assms(7) using assms(5,6) by (rule round_half_even_eval)
  moreover have "max e (- 126) - int 24 + 1 = e - 23" using assms(3) by simp
  ultimately show ?thesis
    unfolding round32_def round_nearest_eval [OF assms(1,2)] using assms(8)
    by (simp add: Let_def)
qed

subsection \<open>Sample scaling\<close>

lemma fromEngineDomain_Fin:
  "fromEngineDomain (Fin y) = Fin (max (- 1) (min 1 (y / 32768)))"
  by (simp add: fromEngineDomain_def num_gt_def Let_def max_def min_def)

lemma two_powr_15: "(2::real) powr 15 = 32768"
proof -
  have "(2::real) powr 15 = 2 powr (real (15::nat))" by simp
  also have "\<dots> = 2 ^ (15::nat)" by (subst powr_realpow) simp_all
  finally show ?thesis by simp
qed

lemma float32_scaled:
  assumes "float32 x" and "\<bar>x\<bar> \<le> 1"
  shows "float32 (x * 32768)"
proof -
  from assms(1) obtain m e :: int where m: "\<bar>m\<bar> < 2 ^ 24" and e: "- 149 \<le> e" "e \<le> 104"
    and x: "x = of_int m * 2 powr of_int e"
    unfolding float32_def by blast
  show ?thesis
  proof (cases "m = 0")
    case True
    then have "x * 32768 = of_int (0::int) * 2 powr of_int (0::int)" by (simp add: x)
    then show ?thesis unfolding float32_def by (intro exI [of _ 0] conjI) simp_all
  next
    case False
    then have "1 \<le> \<bar>real_of_int m\<bar>" by (simp flip: of_int_abs add: int_one_le_iff_zero_less)
    then have "2 powr of_int e * 1 \<le> 2 powr of_int e * \<bar>real_of_int m\<bar>"
      by (intro mult_left_mono) simp_all
    also have "\<dots> = \<bar>x\<bar>" by (simp add: x abs_mult)
    finally have "(2::real) powr of_int e \<le> 2 powr 0" using assms(2) by simp
    then have "real_of_int e \<le> 0" by (simp only: powr_le_cancel_iff) 
    then have e0: "e \<le> 0" by simp
    have "x * 32768 = of_int m * 2 powr of_int (e + 15)"
      by (simp add: x powr_add two_powr_15)
    with m e e0 show ?thesis
      unfolding float32_def by (intro exI [of _ m] exI [of _ "e + 15"]) simp
  qed
qed

text \<open>
  Claim C9. For every finite \<open>x\<close> with \<open>- 1 \<le> x \<le> 1\<close>, scaling into the engine's
  domain and back, \<open>clamp ((x * 32768) / 32768, - 1, 1)\<close>, gives \<open>x\<close> again. The
  product and the quotient are taken exact, so the equality is exact; and when \<open>x\<close>
  is a binary32 value, so is the scaled sample \<open>x * 32768\<close> (the factor \<open>2 ^ 15\<close> only
  moves the exponent), so that storing it in a \<^verbatim>\<open>Float32Array\<close> does not round it.
\<close>

theorem domain_round_trip:
  assumes "- 1 \<le> x" and "x \<le> 1"
  shows "fromEngineDomain (toEngineDomain (Fin x)) = Fin x \<and>
    (float32 x \<longrightarrow> (\<exists>y. toEngineDomain (Fin x) = Fin y \<and> float32 y))"
  using assms float32_scaled [of x] by (simp add: fromEngineDomain_Fin)

theorem domain_round_trip_witness:
  "- 1 \<le> (1 / 2 :: real) \<and> (1 / 2 :: real) \<le> 1 \<and> float32 (1 / 2) \<and>
   fromEngineDomain (toEngineDomain (Fin (1 / 2))) = Fin (1 / 2) \<and>
   toEngineDomain (Fin (1 / 2)) = Fin 16384 \<and> float32 16384"
proof -
  have "(1 / 2 :: real) = of_int 1 * 2 powr of_int (- 1)"
    by (simp add: powr_minus)
  then have f: "float32 (1 / 2)"
    unfolding float32_def by (intro exI [of _ 1] exI [of _ "- 1"]) simp
  from domain_round_trip [of "1 / 2"] f show ?thesis by simp
qed

subsection \<open>Arithmetic of numbers\<close>

lemma round64_tenth: "round64 (1 / 10) = Fin (3602879701896397 / 36028797018963968)"
proof -
  have "round64 (1 / 10) =
     (let u = pow2 (max (- 4) (- 1022) - int 53 + 1);
          y = of_int (round_half_even ((1 / 10) / u)) * u
      in if pow2 (1023 + 1) \<le> \<bar>y\<bar> then (if 0 < y then PInf else NInf) else Fin y)"
    unfolding round64_def by (rule round_nearest_eval) (simp_all add: pow2_def)
  moreover have "round_half_even (1 / 10 / pow2 (- 56)) = 7205759403792794"
    by (subst round_half_even_eval [where f = 7205759403792793]) (simp_all add: pow2_def)
  ultimately show ?thesis by (simp add: Let_def) (simp add: pow2_def)
qed

lemma foldl_num_add_NaN [simp]: "foldl num_add NaN h = NaN"
  by (induction h) simp_all

lemma num_add_NaN_right [simp]: "num_add x NaN = NaN"
  by (cases x) simp_all

text \<open>
  A sum of fewer than \<open>2 ^ 29\<close> finite values between two binary32 values stays
  between the corresponding multiples of the two, which are binary64 values.
\<close>

lemma sum_between:
  assumes "\<forall>v \<in> set h. \<exists>x. v = Fin x \<and> lo \<le> x \<and> x \<le> hi"
    and "float32 lo" and "float32 hi"
    and "real j * lo \<le> c" and "c \<le> real j * hi" and "j + length h < 2 ^ 29"
  shows "\<exists>r. foldl num_add (Fin c) h = Fin r \<and>
           real (j + length h) * lo \<le> r \<and> r \<le> real (j + length h) * hi"
  using assms
proof (induction h arbitrary: c j)
  case Nil
  then show ?case by simp
next
  case (Cons v h)
  from Cons.prems(1) obtain x where v: "v = Fin x" and x: "lo \<le> x" "x \<le> hi" by auto
  have j: "Suc j < 2 ^ 29" using Cons.prems(6) by simp
  have "real (Suc j) * lo \<le> c + x" "c + x \<le> real (Suc j) * hi"
    using Cons.prems(4,5) x by (simp_all add: algebra_simps)
  moreover have "float64 (real (Suc j) * lo)" "float64 (real (Suc j) * hi)"
    using Cons.prems(2,3) j by (simp_all only: float64_scaled)
  ultimately obtain r where r: "round64 (c + x) = Fin r" "real (Suc j) * lo \<le> r"
    "r \<le> real (Suc j) * hi"
    using round64_between by blast
  have rest: "\<forall>v \<in> set h. \<exists>x. v = Fin x \<and> lo \<le> x \<and> x \<le> hi" using Cons.prems(1) by simp
  have len: "Suc j + length h < 2 ^ 29" using Cons.prems(6) by simp
  from Cons.IH [OF rest Cons.prems(2,3) r(2,3) len]
  show ?case by (simp add: v r(1))
qed

lemma mean_between:
  assumes ne: "h \<noteq> []" and len: "length h < 2 ^ 29"
    and all: "\<forall>v \<in> set h. \<exists>x. v = Fin x \<and> lo \<le> x \<and> x \<le> hi"
    and lo: "float32 lo" and hi: "float32 hi"
  shows "\<exists>q. num_div_count (foldl num_add (Fin 0) h) (length h) = Fin q \<and> lo \<le> q \<and> q \<le> hi"
proof -
  define n where "n = length h"
  have n: "0 < real n" using ne by (simp add: n_def)
  from sum_between [OF all lo hi, of 0 0] len
  obtain r where r: "foldl num_add (Fin 0) h = Fin r" "real n * lo \<le> r" "r \<le> real n * hi"
    by (auto simp: n_def)
  have "lo \<le> r / real n" "r / real n \<le> hi"
    using r(2,3) n by (simp_all add: pos_le_divide_eq pos_divide_le_eq mult.commute)
  with round64_between [OF _ _ float32_float64 [OF lo] float32_float64 [OF hi]]
  obtain q where "round64 (r / real n) = Fin q" "lo \<le> q" "q \<le> hi" by blast
  with r(1) n show ?thesis by (simp add: n_def [symmetric])
qed

text \<open>
  The mean of a window of binary32 scores that are all below the threshold is below
  the threshold: it does not exceed the greatest score.
\<close>

lemma avgVad_below:
  assumes all: "\<forall>v \<in> set h. binary32 v \<and> num_lt v t" and ne: "h \<noteq> []"
    and len: "length h < 2 ^ 29"
  shows "num_lt (avgVad h) t"
proof -
  define val where "val = (\<lambda>v. case v of Fin x \<Rightarrow> x | _ \<Rightarrow> (0::real))"
  have fin: "v = Fin (val v)" "float32 (val v)" "num_lt (Fin (val v)) t" if "v \<in> set h" for v
  proof -
    from that all have b: "binary32 v" and l: "num_lt v t" by simp_all
    from b show "v = Fin (val v)" by (cases v) (simp_all add: val_def)
    with b l show "float32 (val v)" "num_lt (Fin (val v)) t" by (cases v; simp)+
  qed
  define S where "S = val ` set h"
  have S: "finite S" "S \<noteq> {}" using ne by (simp_all add: S_def)
  define lo where "lo = Min S"
  define hi where "hi = Max S"
  from Min_in [OF S] obtain a where a: "a \<in> set h" "lo = val a" by (auto simp: S_def lo_def)
  from Max_in [OF S] obtain b where b: "b \<in> set h" "hi = val b" by (auto simp: S_def hi_def)
  have bounds: "\<forall>v \<in> set h. \<exists>x. v = Fin x \<and> lo \<le> x \<and> x \<le> hi"
  proof
    fix v assume v: "v \<in> set h"
    then have "val v \<in> S" by (simp add: S_def)
    then have "lo \<le> val v" "val v \<le> hi" using S(1) by (simp_all add: lo_def hi_def)
    with fin(1) [OF v] show "\<exists>x. v = Fin x \<and> lo \<le> x \<and> x \<le> hi" by blast
  qed
  have "float32 lo" "float32 hi" using fin(2) [OF a(1)] fin(2) [OF b(1)] by (simp_all add: a b)
  from mean_between [OF ne len bounds this]
  obtain q where q: "avgVad h = Fin q" "q \<le> hi" by (auto simp: avgVad_def)
  have "num_lt (Fin hi) t" using fin(3) [OF b(1)] by (simp add: b)
  with q show ?thesis by (cases t) simp_all
qed

text \<open>A sum whose partial sums are binary64 values is not rounded.\<close>

lemma sum_exact:
  assumes "\<forall>k \<le> length rs. float64 (c + sum_list (take k rs))"
  shows "foldl num_add (Fin c) (map Fin rs) = Fin (c + sum_list rs)"
  using assms
proof (induction rs arbitrary: c)
  case Nil
  show ?case by simp
next
  case (Cons r rs)
  from Cons.prems [rule_format, of 1] have "round64 (c + r) = Fin (c + r)"
    by (simp add: round64_float64)
  moreover have "\<forall>k \<le> length rs. float64 (c + r + sum_list (take k rs))"
  proof (intro allI impI)
    fix k assume "k \<le> length rs"
    with Cons.prems [rule_format, of "Suc k"] show "float64 (c + r + sum_list (take k rs))"
      by (simp add: add.assoc)
  qed
  ultimately show ?case using Cons.IH [of "c + r"] by (simp add: add.assoc)
qed

lemma mean_exact:
  assumes "rs \<noteq> []" and "\<forall>k \<le> length rs. float64 (sum_list (take k rs))"
    and "float64 (arithmeticMean rs)"
  shows "num_div_count (foldl num_add (Fin 0) (map Fin rs)) (length rs) = Fin (arithmeticMean rs)"
proof -
  have "foldl num_add (Fin 0) (map Fin rs) = Fin (sum_list rs)"
    using sum_exact [of rs 0] assms(2) by simp
  with assms(1,3) show ?thesis
    by (simp add: arithmeticMean_def round64_float64)
qed

lemma foldl_num_add_replicate_Fin:
  assumes "float32 a" and "j + k < 2 ^ 29"
  shows "foldl num_add (Fin (real j * a)) (replicate k (Fin a)) = Fin (real (j + k) * a)"
  using assms(2)
proof (induction k arbitrary: j)
  case 0
  show ?case by simp
next
  case (Suc k)
  have "float64 (real (Suc j) * a)" using assms(1) Suc.prems by (intro float64_scaled) simp_all
  then have "round64 (real j * a + a) = Fin (real (Suc j) * a)"
    by (simp add: round64_float64 algebra_simps)
  with Suc.IH [of "Suc j"] Suc.prems show ?case by simp
qed

lemma foldl_num_add_replicate_PInf [simp]: "foldl num_add PInf (replicate k PInf) = PInf"
  by (induction k) simp_all

lemma foldl_num_add_replicate_NInf [simp]: "foldl num_add NInf (replicate k NInf) = NInf"
  by (induction k) simp_all

text \<open>
  The mean of a window that holds one binary32 (or non-finite) score throughout is
  that score: the partial sums are binary64 values.
\<close>

lemma avgVad_replicate:
  assumes "0 < k" and "k < 2 ^ 29" and "\<forall>x. c = Fin x \<longrightarrow> float32 x"
  shows "avgVad (replicate k c) = c"
proof -
  from assms(1) obtain j where k: "k = Suc j" by (cases k) auto
  show ?thesis
  proof (cases c)
    case (Fin a)
    with assms(3) have a: "float32 a" by simp
    from foldl_num_add_replicate_Fin [OF a, of 0 k] assms(2)
    have "foldl num_add (Fin 0) (replicate k (Fin a)) = Fin (real k * a)" by simp
    moreover have "round64 (real k * a / real k) = Fin a"
      using assms(1) a by (simp add: round64_float64 float32_float64)
    ultimately show ?thesis using assms(1) by (simp add: avgVad_def Fin)
  qed (simp_all add: avgVad_def k)
qed

subsection \<open>The extraction loop\<close>

lemma notInitialized_outputBuffer_update [simp]:
  "notInitialized (s\<lparr>outputBuffer := b\<rparr>) = notInitialized s"
  by (simp add: notInitialized_def)

lemma notInitialized_inputBuffer_update [simp]:
  "notInitialized (s\<lparr>inputBuffer := b\<rparr>) = notInitialized s"
  by (simp add: notInitialized_def)

text \<open>
  \<^verbatim>\<open>processFrame\<close> throws exactly when an initialised processor has a negative
  frame size: every frame length then differs from it, and the allocation of line 152
  fails.
\<close>

lemma paddedFrame_eq:
  "0 \<le> n \<Longrightarrow>
   paddedFrame n frame = Inr (take (nat n) frame @ replicate (nat n - length frame) (Fin 0))"
proof -
  assume n: "0 \<le> n"
  then have "nat (min (int (length frame)) n) = min (length frame) (nat n)"
    by (simp add: min_def) linarith
  with n show ?thesis
    by (simp add: paddedFrame_def newFloat32Array_def set_from_start_def Let_def)
      (simp add: min_def)
qed

lemma paddedFrame_negative: "n < 0 \<Longrightarrow> paddedFrame n frame = Inl RangeError"
  by (simp add: paddedFrame_def newFloat32Array_def)

lemma processFrame_throws:
  "processFrame eng s frame = Inl err \<longleftrightarrow> \<not> notInitialized s \<and> frameSize s < 0"
proof (cases "frameSize s < 0")
  case True
  then have "int (length frame) \<noteq> frameSize s" by simp
  with True show ?thesis
    by (cases err) (simp add: processFrame_def paddedFrame_negative)
next
  case False
  then have "0 \<le> frameSize s" by simp
  with False show ?thesis
    by (simp add: processFrame_def paddedFrame_eq Let_def split: engine_result.splits)
qed

lemma handleFrame_throws:
  "handleFrame eng s frame = Inl err \<longleftrightarrow> \<not> notInitialized s \<and> frameSize s < 0"
  using processFrame_throws [of eng s frame err]
  by (auto simp: handleFrame_def Let_def split: sum.splits prod.splits)

lemma handleFrame_afterFrame:
  "notInitialized s \<or> 0 \<le> frameSize s \<Longrightarrow> handleFrame eng s f = Inr (afterFrame eng s f)"
proof (cases "handleFrame eng s f")
  case (Inl err)
  assume "notInitialized s \<or> 0 \<le> frameSize s"
  with Inl handleFrame_throws [of eng s f err] show ?thesis by auto
next
  case (Inr s')
  then show ?thesis by (simp add: afterFrame_def)
qed

lemma processFrame_inputBuffer_update:
  "processFrame eng (s\<lparr>inputBuffer := b\<rparr>) f =
   map_sum id (\<lambda>(s', p, v). (s'\<lparr>inputBuffer := b\<rparr>, p, v)) (processFrame eng s f)"
  by (auto simp: processFrame_def notInitialized_def Let_def
      split: engine_result.splits sum.splits)

lemma updateVadHistory_inputBuffer_update:
  "updateVadHistory (s\<lparr>inputBuffer := b\<rparr>) v = (updateVadHistory s v)\<lparr>inputBuffer := b\<rparr>"
  by (simp add: updateVadHistory_def Let_def)

lemma handleFrame_inputBuffer_update:
  "handleFrame eng (s\<lparr>inputBuffer := b\<rparr>) f =
   map_sum id (\<lambda>s'. s'\<lparr>inputBuffer := b\<rparr>) (handleFrame eng s f)"
proof (cases "processFrame eng s f")
  case (Inl err)
  then show ?thesis by (simp add: handleFrame_def processFrame_inputBuffer_update)
next
  case (Inr r)
  obtain s1 p v where "r = (s1, p, v)" by (cases r)
  with Inr show ?thesis
    by (simp add: handleFrame_def processFrame_inputBuffer_update
        updateVadHistory_inputBuffer_update shouldSkipFrame_def Let_def)
qed

lemma afterFrame_inputBuffer_update:
  "afterFrame eng (s\<lparr>inputBuffer := b\<rparr>) f = (afterFrame eng s f)\<lparr>inputBuffer := b\<rparr>"
  by (simp add: afterFrame_def handleFrame_inputBuffer_update split: sum.splits)

lemma processFrame_engine:
  assumes "processFrame eng s f = Inr (s1, p, v)"
  shows "\<exists>e. s1 = s\<lparr>engine := e\<rparr>"
proof (cases "notInitialized s")
  case True
  with assms have "s1 = s" by (simp add: processFrame_def)
  then have "s1 = s\<lparr>engine := engine s\<rparr>" by simp
  then show ?thesis ..
next
  case False
  define fr where
    "fr = (if int (length f) \<noteq> frameSize s then paddedFrame (frameSize s) f else Inr f)"
  show ?thesis
  proof (cases fr)
    case (Inl err)
    with assms False show ?thesis by (simp add: processFrame_def fr_def [symmetric])
  next
    case (Inr frame)
    with assms False show ?thesis
      by (cases "eng (engine s) (map (\<lambda>i. toEngineDomain (frame ! i)) [0..<nat (frameSize s)])")
        (auto simp: processFrame_def fr_def [symmetric] Let_def)
  qed
qed

lemma processFrame_keeps:
  assumes "processFrame eng s f = Inr (s1, p, v)"
  shows "vadHistory s1 = vadHistory s" "silenceCounter s1 = silenceCounter s"
    "silenceThreshold s1 = silenceThreshold s" "maxSilenceFrames s1 = maxSilenceFrames s"
    "outputBuffer s1 = outputBuffer s" "inputBuffer s1 = inputBuffer s"
    "frameSize s1 = frameSize s" "notInitialized s1 = notInitialized s"
    "isDestroy s1 = isDestroy s"
  using processFrame_engine [OF assms] by (auto simp: notInitialized_def)

lemma updateVadHistory_other [simp]:
  "silenceThreshold (updateVadHistory s vad) = silenceThreshold s"
  "maxSilenceFrames (updateVadHistory s vad) = maxSilenceFrames s"
  "outputBuffer (updateVadHistory s vad) = outputBuffer s"
  "inputBuffer (updateVadHistory s vad) = inputBuffer s"
  "frameSize (updateVadHistory s vad) = frameSize s"
  "engine (updateVadHistory s vad) = engine s"
  "isDestroy (updateVadHistory s vad) = isDestroy s"
  "notInitialized (updateVadHistory s vad) = notInitialized s"
  by (simp_all add: updateVadHistory_def Let_def notInitialized_def)

lemma handleFrame_gate:
  assumes "processFrame eng s frame = Inr (s1, p, v)"
  shows "handleFrame eng s frame =
     Inr (if int (silenceCounter (updateVadHistory s1 v)) > maxSilenceFrames s
          then updateVadHistory s1 v
          else (updateVadHistory s1 v)\<lparr>outputBuffer := outputBuffer s @ p\<rparr>)"
  using assms processFrame_keeps [OF assms]
  by (simp add: handleFrame_def shouldSkipFrame_def Let_def)

lemma handleFrame_fields:
  assumes "handleFrame eng s f = Inr s'"
  shows "frameSize s' = frameSize s" "inputBuffer s' = inputBuffer s"
    "isDestroy s' = isDestroy s" "notInitialized s' = notInitialized s"
proof -
  from assms obtain r where "processFrame eng s f = Inr r"
    by (cases "processFrame eng s f") (simp_all add: handleFrame_def)
  then obtain s1 p v where pf: "processFrame eng s f = Inr (s1, p, v)" by (cases r) auto
  note keep = processFrame_keeps [OF pf]
  from assms handleFrame_gate [OF pf]
  have s': "s' = (if int (silenceCounter (updateVadHistory s1 v)) > maxSilenceFrames s
          then updateVadHistory s1 v
          else (updateVadHistory s1 v)\<lparr>outputBuffer := outputBuffer s @ p\<rparr>)"
    by simp
  show "frameSize s' = frameSize s" "inputBuffer s' = inputBuffer s"
    "isDestroy s' = isDestroy s" "notInitialized s' = notInitialized s"
    using keep by (simp_all add: s')
qed

lemma afterFrame_fields:
  "frameSize (afterFrame eng s f) = frameSize s \<and>
   inputBuffer (afterFrame eng s f) = inputBuffer s \<and>
   isDestroy (afterFrame eng s f) = isDestroy s \<and>
   notInitialized (afterFrame eng s f) = notInitialized s"
proof (cases "handleFrame eng s f")
  case (Inl err)
  then have "afterFrame eng s f = s" by (simp add: afterFrame_def)
  then show ?thesis by simp
next
  case (Inr s')
  then have "afterFrame eng s f = s'" by (simp add: afterFrame_def)
  with handleFrame_fields [OF Inr] show ?thesis by simp
qed

lemma afterFrame_frameSize [simp]: "frameSize (afterFrame eng s f) = frameSize s"
  using afterFrame_fields [of eng s f] by blast

lemma afterFrame_inputBuffer [simp]: "inputBuffer (afterFrame eng s f) = inputBuffer s"
  using afterFrame_fields [of eng s f] by blast

lemma afterFrame_status [simp]:
  "isDestroy (afterFrame eng s f) = isDestroy s"
  "notInitialized (afterFrame eng s f) = notInitialized s"
  using afterFrame_fields [of eng s f] by blast+

lemma foldl_afterFrame_inputBuffer_update:
  "foldl (afterFrame eng) (s\<lparr>inputBuffer := b\<rparr>) fs =
   (foldl (afterFrame eng) s fs)\<lparr>inputBuffer := b\<rparr>"
  by (induction fs arbitrary: s) (simp_all add: afterFrame_inputBuffer_update)

lemma foldl_afterFrame_frameSize [simp]:
  "frameSize (foldl (afterFrame eng) s fs) = frameSize s"
  by (induction fs arbitrary: s) simp_all

lemma foldl_afterFrame_status [simp]:
  "isDestroy (foldl (afterFrame eng) s fs) = isDestroy s"
  "notInitialized (foldl (afterFrame eng) s fs) = notInitialized s"
  by (induction fs arbitrary: s) simp_all

text \<open>With a frame size that is not negative the loop body never throws.\<close>

lemma handleFrames_foldl:
  "notInitialized s \<or> 0 \<le> frameSize s \<Longrightarrow>
   handleFrames eng s fs = Inr (foldl (afterFrame eng) s fs)"
proof (induction fs arbitrary: s)
  case Nil
  show ?case by simp
next
  case (Cons f fs)
  have "notInitialized (afterFrame eng s f) \<or> 0 \<le> frameSize (afterFrame eng s f)"
    using Cons.prems by simp
  from Cons.IH [OF this] handleFrame_afterFrame [OF Cons.prems, of eng f]
  show ?case by simp
qed

lemma fullFrames_short [simp]: "length xs < n \<Longrightarrow> fullFrames n xs = []"
  by (simp add: fullFrames.simps)

lemma fullFrames_step:
  "0 < n \<Longrightarrow> n \<le> length xs \<Longrightarrow> fullFrames n xs = take n xs # fullFrames n (drop n xs)"
  by (subst fullFrames.simps) simp

lemma length_fullFrames: "0 < n \<Longrightarrow> length (fullFrames n xs) = length xs div n"
proof (induction n xs rule: fullFrames.induct)
  case (1 n xs)
  show ?case
  proof (cases "n \<le> length xs")
    case True
    with 1 show ?thesis by (simp add: fullFrames_step le_div_geq)
  next
    case False
    then show ?thesis by simp
  qed
qed

lemma fullFrames_lengths: "f \<in> set (fullFrames n xs) \<Longrightarrow> length f = n"
proof (induction n xs rule: fullFrames.induct)
  case (1 n xs)
  show ?case
  proof (cases "0 < n \<and> n \<le> length xs")
    case True
    then have "fullFrames n xs = take n xs # fullFrames n (drop n xs)"
      by (simp add: fullFrames_step)
    with 1(2) have "f = take n xs \<or> f \<in> set (fullFrames n (drop n xs))"
      by simp
    then show ?thesis
    proof
      assume "f = take n xs"
      with True show ?thesis by simp
    next
      assume "f \<in> set (fullFrames n (drop n xs))"
      with 1(1) True show ?thesis by blast
    qed
  next
    case False
    then have "fullFrames n xs = []" by (subst fullFrames.simps) simp
    with 1(2) show ?thesis by simp
  qed
qed

lemma concat_fullFrames:
  "0 < n \<Longrightarrow> concat (fullFrames n xs) = take (length xs div n * n) xs"
proof (induction n xs rule: fullFrames.induct)
  case (1 n xs)
  show ?case
  proof (cases "n \<le> length xs")
    case True
    have "length xs div n * n = n + (length xs - n) div n * n"
      using True 1(2) by (simp add: le_div_geq)
    then have "take (length xs div n * n) xs
                 = take n xs @ take ((length xs - n) div n * n) (drop n xs)"
      by (simp only: take_add)
    with 1 True show ?thesis by (simp add: fullFrames_step)
  next
    case False
    then show ?thesis by simp
  qed
qed

lemma fullFrames_append:
  "0 < n \<Longrightarrow>
   fullFrames n (xs @ ys) = fullFrames n xs @ fullFrames n (drop (length xs div n * n) xs @ ys)"
proof (induction n xs rule: fullFrames.induct)
  case (1 n xs)
  show ?case
  proof (cases "n \<le> length xs")
    case True
    have "fullFrames n (xs @ ys) = take n xs # fullFrames n (drop n xs @ ys)"
      using True 1(2) by (subst fullFrames.simps) simp
    moreover have "length xs div n * n = (length xs - n) div n * n + n"
      using True 1(2) by (simp add: le_div_geq)
    ultimately show ?thesis
      using 1 True by (simp add: fullFrames_step add.commute)
  next
    case False
    then show ?thesis by simp
  qed
qed

lemma drop_frames_arith:
  fixes F :: nat
  assumes "0 < F"
  shows "(length b mod F + m) div F * F + length b div F * F = (length b + m) div F * F"
proof -
  have "(length b + m) div F = (length b div F * F + (length b mod F + m)) div F"
    by (simp add: add.assoc [symmetric])
  also have "\<dots> = length b div F + (length b mod F + m) div F"
    using assms by (simp only: div_mult_self3) 
  finally show ?thesis by (simp add: algebra_simps)
qed

lemma slice_positive:
  "0 < n \<Longrightarrow> slice_to n xs = take (nat n) xs"
  "0 < n \<Longrightarrow> slice_from n xs = drop (nat n) xs"
  by (simp_all add: slice_to_def slice_from_def)

lemma processFullFrames_fold:
  assumes "0 < frameSize s"
  shows "processFullFrames eng s =
    Some (Inr ((foldl (afterFrame eng) s (fullFrames (nat (frameSize s)) (inputBuffer s)))
            \<lparr>inputBuffer :=
               drop (length (inputBuffer s) div nat (frameSize s) * nat (frameSize s))
                 (inputBuffer s)\<rparr>))"
  using assms
proof (induction "length (inputBuffer s)" arbitrary: s rule: less_induct)
  case less
  define F where "F = nat (frameSize s)"
  have F: "0 < F" "frameSize s = int F" using less.prems by (simp_all add: F_def)
  let ?b = "inputBuffer s"
  show ?case
  proof (cases "F \<le> length ?b")
    case False
    then have "\<not> frameSize s \<le> int (length ?b)" using F by simp
    then have "processFullFrames eng s = Some (Inr s)"
      by (subst processFullFrames.simps) simp
    moreover have "fullFrames F ?b = []" using False by simp
    moreover have "length ?b div F = 0" using False by simp
    ultimately show ?thesis
      unfolding F_def [symmetric] by simp
  next
    case True
    let ?s1 = "afterFrame eng (s\<lparr>inputBuffer := drop F ?b\<rparr>) (take F ?b)"
    have len: "length (inputBuffer ?s1) < length ?b"
      using True F by simp
    have F1: "0 < frameSize ?s1" "nat (frameSize ?s1) = F" using less.prems by (simp_all add: F_def)
    have div: "length ?b div F * F = (length ?b - F) div F * F + F"
      using True F by (simp add: le_div_geq)
    have cond: "frameSize s \<le> int (length ?b)" using True F by simp
    have body: "handleFrame eng (s\<lparr>inputBuffer := slice_from (frameSize s) ?b\<rparr>)
                  (slice_to (frameSize s) ?b) = Inr ?s1"
      using less.prems
      by (simp add: slice_positive F_def [symmetric] handleFrame_afterFrame)
    have "processFullFrames eng s = processFullFrames eng ?s1"
      by (subst processFullFrames.simps) (simp only: cond body if_True sum.case)
    also have "\<dots> = Some (Inr ((foldl (afterFrame eng) ?s1 (fullFrames F (drop F ?b)))
            \<lparr>inputBuffer := drop ((length ?b - F) div F * F) (drop F ?b)\<rparr>))"
      using less.hyps [OF len F1(1)] unfolding F1(2) by simp
    also have "\<dots> = Some (Inr ((foldl (afterFrame eng) s (fullFrames F ?b))
            \<lparr>inputBuffer := drop (length ?b div F * F) ?b\<rparr>))"
      using True F
      by (simp add: fullFrames_step [of F ?b] afterFrame_inputBuffer_update
          foldl_afterFrame_inputBuffer_update div add.commute)
    finally show ?thesis unfolding F_def .
  qed
qed

lemma feedChunks_fold:
  assumes "0 < frameSize s" and "int (length (inputBuffer s)) < frameSize s"
  shows "feedChunks eng s cs =
    Some (Inr ((foldl (afterFrame eng) s
                  (fullFrames (nat (frameSize s)) (inputBuffer s @ concat cs)))
            \<lparr>inputBuffer :=
               drop (length (inputBuffer s @ concat cs) div nat (frameSize s)
                       * nat (frameSize s))
                 (inputBuffer s @ concat cs)\<rparr>))"
  using assms
proof (induction cs arbitrary: s)
  case Nil
  then show ?case by simp
next
  case (Cons c cs)
  define F where "F = nat (frameSize s)"
  define b where "b = inputBuffer s @ c"
  define k where "k = length b div F * F"
  define r where "r = drop k b"
  define s1 where "s1 = (foldl (afterFrame eng) s (fullFrames F b))\<lparr>inputBuffer := r\<rparr>"
  have F0: "0 < F" using Cons.prems(1) by (simp add: F_def)
  have pass: "processFullFrames eng (appendInput s c) = Some (Inr s1)"
    using processFullFrames_fold [of "appendInput s c" eng] Cons.prems(1)
    by (simp add: appendInput_def foldl_afterFrame_inputBuffer_update s1_def r_def k_def b_def F_def)
  have F1: "nat (frameSize s1) = F" by (simp add: s1_def F_def)
  have F2: "0 < frameSize s1" using Cons.prems(1) by (simp add: s1_def)
  have b1: "inputBuffer s1 = r" by (simp add: s1_def)
  have lr: "length r = length b mod F"
    by (simp add: r_def k_def minus_div_mult_eq_mod)
  have len1: "int (length (inputBuffer s1)) < frameSize s1"
  proof -
    have "length b mod F < F" using F0 by simp
    then have "int (length b mod F) < int F" by (simp only: of_nat_less_iff)
    also have "int F = frameSize s1" using F1 F2 by simp
    finally show ?thesis by (simp only: b1 lr)
  qed
  have IH: "feedChunks eng s1 cs =
    Some (Inr ((foldl (afterFrame eng) s1 (fullFrames F (r @ concat cs)))
            \<lparr>inputBuffer := drop (length (r @ concat cs) div F * F) (r @ concat cs)\<rparr>))"
    using Cons.IH [of s1] F2 len1 by (simp only: F1 b1)
  have fr: "fullFrames F (b @ concat cs) = fullFrames F b @ fullFrames F (r @ concat cs)"
    using fullFrames_append [OF F0, of b "concat cs"] by (simp only: r_def k_def)
  have ar: "length (r @ concat cs) div F * F + k = length (b @ concat cs) div F * F"
    using drop_frames_arith [OF F0, of b "length (concat cs)"] by (simp add: lr k_def)
  have kb: "k \<le> length b" by (simp add: k_def)
  have dr: "drop (length (r @ concat cs) div F * F) (r @ concat cs)
              = drop (length (b @ concat cs) div F * F) (b @ concat cs)"
  proof -
    have "r @ concat cs = drop k (b @ concat cs)" using kb by (simp add: r_def)
    then have "drop (length (r @ concat cs) div F * F) (r @ concat cs)
        = drop (length (r @ concat cs) div F * F + k) (b @ concat cs)"
      by (simp only: drop_drop)
    then show ?thesis by (simp only: ar)
  qed
  have "feedChunks eng s (c # cs) = feedChunks eng s1 cs"
    by (simp add: pass)
  also have "\<dots> = Some (Inr ((foldl (afterFrame eng) s (fullFrames F (b @ concat cs)))
            \<lparr>inputBuffer := drop (length (b @ concat cs) div F * F) (b @ concat cs)\<rparr>))"
    by (simp only: IH dr fr) (simp add: s1_def foldl_afterFrame_inputBuffer_update)
  finally show ?case by (simp add: b_def F_def)
qed

lemma processFrame_outputBuffer_update:
  "processFrame eng (s\<lparr>outputBuffer := b\<rparr>) f =
   map_sum id (\<lambda>(s', p, v). (s'\<lparr>outputBuffer := b\<rparr>, p, v)) (processFrame eng s f)"
  by (auto simp: processFrame_def notInitialized_def Let_def
      split: engine_result.splits sum.splits)

lemma updateVadHistory_outputBuffer_update:
  "updateVadHistory (s\<lparr>outputBuffer := b\<rparr>) v = (updateVadHistory s v)\<lparr>outputBuffer := b\<rparr>"
  by (simp add: updateVadHistory_def Let_def)

lemma afterFrame_outputBuffer_erase:
  "(afterFrame eng (s\<lparr>outputBuffer := b\<rparr>) f)\<lparr>outputBuffer := []\<rparr>
     = (afterFrame eng s f)\<lparr>outputBuffer := []\<rparr>"
proof (cases "processFrame eng s f")
  case (Inl err)
  then show ?thesis
    by (simp add: afterFrame_def handleFrame_def processFrame_outputBuffer_update)
next
  case (Inr r)
  obtain s1 p v where "r = (s1, p, v)" by (cases r)
  with Inr show ?thesis
    by (simp add: afterFrame_def handleFrame_def processFrame_outputBuffer_update
        updateVadHistory_outputBuffer_update shouldSkipFrame_def Let_def)
qed

lemma afterFrame_modulo_output:
  assumes "s\<lparr>outputBuffer := []\<rparr> = t\<lparr>outputBuffer := []\<rparr>"
  shows "(afterFrame eng s f)\<lparr>outputBuffer := []\<rparr> = (afterFrame eng t f)\<lparr>outputBuffer := []\<rparr>"
proof -
  have "(afterFrame eng s f)\<lparr>outputBuffer := []\<rparr>
      = (afterFrame eng (s\<lparr>outputBuffer := []\<rparr>) f)\<lparr>outputBuffer := []\<rparr>"
    using afterFrame_outputBuffer_erase [where s = "s\<lparr>outputBuffer := []\<rparr>" and b = "outputBuffer s"]
    by simp
  also have "\<dots> = (afterFrame eng (t\<lparr>outputBuffer := []\<rparr>) f)\<lparr>outputBuffer := []\<rparr>"
    by (simp only: assms)
  also have "\<dots> = (afterFrame eng t f)\<lparr>outputBuffer := []\<rparr>"
    using afterFrame_outputBuffer_erase [where s = "t\<lparr>outputBuffer := []\<rparr>" and b = "outputBuffer t"]
    by simp
  finally show ?thesis .
qed

lemma foldl_afterFrame_modulo_output:
  assumes "s\<lparr>outputBuffer := []\<rparr> = t\<lparr>outputBuffer := []\<rparr>"
  shows "(foldl (afterFrame eng) s fs)\<lparr>outputBuffer := []\<rparr>
       = (foldl (afterFrame eng) t fs)\<lparr>outputBuffer := []\<rparr>"
  using assms
proof (induction fs arbitrary: s t)
  case Nil
  then show ?case by simp
next
  case (Cons f fs)
  have "(afterFrame eng s f)\<lparr>outputBuffer := []\<rparr> = (afterFrame eng t f)\<lparr>outputBuffer := []\<rparr>"
    using Cons.prems by (rule afterFrame_modulo_output)
  then have "(foldl (afterFrame eng) (afterFrame eng s f) fs)\<lparr>outputBuffer := []\<rparr>
       = (foldl (afterFrame eng) (afterFrame eng t f) fs)\<lparr>outputBuffer := []\<rparr>"
    by (rule Cons.IH)
  then show ?case by simp
qed

lemma modulo_output_fields:
  assumes "s\<lparr>outputBuffer := []\<rparr> = t\<lparr>outputBuffer := []\<rparr>"
  shows "inputBuffer s = inputBuffer t" "frameSize s = frameSize t" "isDestroy s = isDestroy t"
    "notInitialized s = notInitialized t"
proof -
  have "inputBuffer (s\<lparr>outputBuffer := []\<rparr>) = inputBuffer (t\<lparr>outputBuffer := []\<rparr>)"
    "frameSize (s\<lparr>outputBuffer := []\<rparr>) = frameSize (t\<lparr>outputBuffer := []\<rparr>)"
    "isDestroy (s\<lparr>outputBuffer := []\<rparr>) = isDestroy (t\<lparr>outputBuffer := []\<rparr>)"
    "notInitialized (s\<lparr>outputBuffer := []\<rparr>) = notInitialized (t\<lparr>outputBuffer := []\<rparr>)"
    by (simp_all only: assms)
  then show "inputBuffer s = inputBuffer t" "frameSize s = frameSize t"
    "isDestroy s = isDestroy t" "notInitialized s = notInitialized t"
    by simp_all
qed

lemma outputToChannels_modulo_output:
  "(fst (outputToChannels s outputs))\<lparr>outputBuffer := []\<rparr> = s\<lparr>outputBuffer := []\<rparr>"
  by (simp add: outputToChannels_def Let_def)

lemma pass_modulo_output:
  assumes rel: "s\<lparr>outputBuffer := []\<rparr> = t\<lparr>outputBuffer := []\<rparr>" and F: "0 < frameSize t"
  shows "\<exists>s' t'. processFullFrames eng (appendInput s c) = Some (Inr s') \<and>
           processFullFrames eng (appendInput t c) = Some (Inr t') \<and>
           s'\<lparr>outputBuffer := []\<rparr> = t'\<lparr>outputBuffer := []\<rparr>"
proof -
  note eq = modulo_output_fields [OF rel]
  have rel': "(appendInput s c)\<lparr>outputBuffer := []\<rparr> = (appendInput t c)\<lparr>outputBuffer := []\<rparr>"
  proof -
    have "(appendInput s c)\<lparr>outputBuffer := []\<rparr>
        = (s\<lparr>outputBuffer := []\<rparr>)\<lparr>inputBuffer := inputBuffer t @ c\<rparr>"
      by (simp add: appendInput_def eq)
    also have "\<dots> = (appendInput t c)\<lparr>outputBuffer := []\<rparr>"
      by (simp add: appendInput_def rel)
    finally show ?thesis .
  qed
  have Fs: "0 < frameSize (appendInput s c)" and Ft: "0 < frameSize (appendInput t c)"
    using F eq by (simp_all add: appendInput_def)
  have same: "frameSize (appendInput s c) = frameSize (appendInput t c)"
    "inputBuffer (appendInput s c) = inputBuffer (appendInput t c)"
    using eq by (simp_all add: appendInput_def)
  define r where "r = drop (length (inputBuffer (appendInput t c))
                              div nat (frameSize (appendInput t c))
                            * nat (frameSize (appendInput t c))) (inputBuffer (appendInput t c))"
  define fs where
    "fs = fullFrames (nat (frameSize (appendInput t c))) (inputBuffer (appendInput t c))"
  define A where "A = foldl (afterFrame eng) (appendInput s c) fs"
  define B where "B = foldl (afterFrame eng) (appendInput t c) fs"
  have e: "A\<lparr>outputBuffer := []\<rparr> = B\<lparr>outputBuffer := []\<rparr>"
    unfolding A_def B_def by (rule foldl_afterFrame_modulo_output [OF rel'])
  have "(A\<lparr>inputBuffer := r\<rparr>)\<lparr>outputBuffer := []\<rparr> = (A\<lparr>outputBuffer := []\<rparr>)\<lparr>inputBuffer := r\<rparr>"
    by simp
  also have "\<dots> = (B\<lparr>outputBuffer := []\<rparr>)\<lparr>inputBuffer := r\<rparr>"
    by (simp only: e)
  also have "\<dots> = (B\<lparr>inputBuffer := r\<rparr>)\<lparr>outputBuffer := []\<rparr>"
    by simp
  finally have "(A\<lparr>inputBuffer := r\<rparr>)\<lparr>outputBuffer := []\<rparr> = (B\<lparr>inputBuffer := r\<rparr>)\<lparr>outputBuffer := []\<rparr>" .
  moreover have "processFullFrames eng (appendInput s c) = Some (Inr (A\<lparr>inputBuffer := r\<rparr>))"
    unfolding processFullFrames_fold [OF Fs] same A_def r_def fs_def ..
  moreover have "processFullFrames eng (appendInput t c) = Some (Inr (B\<lparr>inputBuffer := r\<rparr>))"
    unfolding processFullFrames_fold [OF Ft] B_def r_def fs_def ..
  ultimately show ?thesis by blast
qed

lemma processFullFrames_status:
  assumes "0 < frameSize t" and "processFullFrames eng t = Some (Inr t')"
  shows "frameSize t' = frameSize t" "isDestroy t' = isDestroy t"
    "notInitialized t' = notInitialized t"
  using assms(2) unfolding processFullFrames_fold [OF assms(1)] by auto

lemma process_ready:
  assumes "\<not> isDestroy s" and "\<not> notInitialized s" and "inputSources \<noteq> []"
    and "processFullFrames eng (appendInput s (mergeChannels inputSources)) = Some (Inr s1)"
  shows "process eng s (inputSources # others) outputs =
    Some (Inr (fst (outputToChannels s1 outputs), snd (outputToChannels s1 outputs), True))"
  using assms by (simp add: process_def split: prod.splits)

lemma callbacks_feedChunks:
  assumes "s\<lparr>outputBuffer := []\<rparr> = t\<lparr>outputBuffer := []\<rparr>" and "0 < frameSize t"
    and "\<not> isDestroy t" and "\<not> notInitialized t"
    and "\<forall>(inputs, outputs) \<in> set ios. inputs \<noteq> [] \<and> hd inputs \<noteq> []"
  shows "\<exists>s' t'. callbacks eng s ios = Some (Inr s') \<and>
     feedChunks eng t (map (\<lambda>(inputs, outputs). mergeChannels (hd inputs)) ios) = Some (Inr t') \<and>
     s'\<lparr>outputBuffer := []\<rparr> = t'\<lparr>outputBuffer := []\<rparr>"
  using assms
proof (induction ios arbitrary: s t)
  case Nil
  then show ?case by simp
next
  case (Cons io ios)
  obtain inputs outputs where io: "io = (inputs, outputs)" by (cases io)
  with Cons.prems(5) obtain src others where inputs: "inputs = src # others" and src: "src \<noteq> []"
    by (cases inputs) auto
  note eq = modulo_output_fields [OF Cons.prems(1)]
  from pass_modulo_output [OF Cons.prems(1,2), of eng "mergeChannels src"]
  obtain s1 t1 where s1: "processFullFrames eng (appendInput s (mergeChannels src)) = Some (Inr s1)"
    and t1: "processFullFrames eng (appendInput t (mergeChannels src)) = Some (Inr t1)"
    and rel1: "s1\<lparr>outputBuffer := []\<rparr> = t1\<lparr>outputBuffer := []\<rparr>"
    by blast
  let ?s2 = "fst (outputToChannels s1 outputs)"
  have step: "process eng s inputs outputs =
      Some (Inr (?s2, snd (outputToChannels s1 outputs), True))"
    unfolding inputs using Cons.prems(3,4) eq src s1 by (intro process_ready) simp_all
  have rel2: "?s2\<lparr>outputBuffer := []\<rparr> = t1\<lparr>outputBuffer := []\<rparr>"
    using rel1 by (simp only: outputToChannels_modulo_output)
  have "0 < frameSize (appendInput t (mergeChannels src))"
    using Cons.prems(2) by (simp add: appendInput_def)
  from processFullFrames_status [OF this t1] Cons.prems(2,3,4)
  have st: "0 < frameSize t1" "\<not> isDestroy t1" "\<not> notInitialized t1"
    by (simp_all add: appendInput_def)
  have rest: "\<forall>(inputs, outputs) \<in> set ios. inputs \<noteq> [] \<and> hd inputs \<noteq> []"
    using Cons.prems(5) by simp
  from Cons.IH [OF rel2 st rest]
  obtain s' t' where "callbacks eng ?s2 ios = Some (Inr s')"
    "feedChunks eng t1 (map (\<lambda>(inputs, outputs). mergeChannels (hd inputs)) ios) = Some (Inr t')"
    "s'\<lparr>outputBuffer := []\<rparr> = t'\<lparr>outputBuffer := []\<rparr>"
    by blast
  then show ?case
    by (simp add: io inputs step [unfolded inputs] t1)
qed

subsection \<open>Frame extraction\<close>

text \<open>
  Claim C2. For every frame size \<open>F > 0\<close> and every sequence of appends to an initially
  empty input buffer with \<open>N\<close> samples in total, each append followed by the extraction
  loop, the loops return and do not throw. The frames handled are, in order, the
  \<open>N div F\<close> consecutive blocks of \<open>F\<close> samples of the concatenated input; the input
  buffer then holds the remaining \<open>N mod F\<close> samples, fewer than \<open>F\<close>; and the outcome
  depends on the concatenation only, not on how the samples were split into appends.
  Render callbacks of a ready processor whose merged inputs are these appends return as
  well and end in the same processor, but for the output buffer, which they also drain.
\<close>

theorem frame_extraction:
  assumes F: "0 < frameSize s" and empty: "inputBuffer s = []"
  shows "\<exists>s' s0. feedChunks eng s appends = Some (Inr s') \<and>
      handleFrames eng s (fullFrames (nat (frameSize s)) (concat appends)) = Inr s0 \<and>
      s' = s0\<lparr>inputBuffer := inputBuffer s'\<rparr> \<and>
      length (fullFrames (nat (frameSize s)) (concat appends))
        = length (concat appends) div nat (frameSize s) \<and>
      (\<forall>frame \<in> set (fullFrames (nat (frameSize s)) (concat appends)).
         int (length frame) = frameSize s) \<and>
      concat (fullFrames (nat (frameSize s)) (concat appends)) @ inputBuffer s'
        = concat appends \<and>
      length (inputBuffer s') = length (concat appends) mod nat (frameSize s) \<and>
      int (length (inputBuffer s')) < frameSize s \<and>
      (\<forall>appends'. concat appends' = concat appends \<longrightarrow>
         feedChunks eng s appends' = feedChunks eng s appends) \<and>
      (\<forall>ios. \<not> isDestroy s \<and> \<not> notInitialized s \<and>
         (\<forall>(inputs, outputs) \<in> set ios. inputs \<noteq> [] \<and> hd inputs \<noteq> []) \<and>
         map (\<lambda>(inputs, outputs). mergeChannels (hd inputs)) ios = appends \<longrightarrow>
         (\<exists>s''. callbacks eng s ios = Some (Inr s'') \<and>
            s''\<lparr>outputBuffer := []\<rparr> = s'\<lparr>outputBuffer := []\<rparr>))"
proof -
  let ?F = "nat (frameSize s)" and ?all = "concat appends"
  let ?rest = "drop (length ?all div ?F * ?F) ?all"
  let ?s0 = "foldl (afterFrame eng) s (fullFrames ?F ?all)"
  let ?s' = "?s0\<lparr>inputBuffer := ?rest\<rparr>"
  have F0: "0 < ?F" and FF: "int ?F = frameSize s" using F by simp_all
  have run: "feedChunks eng s cs =
      Some (Inr ((foldl (afterFrame eng) s (fullFrames ?F (concat cs)))
              \<lparr>inputBuffer := drop (length (concat cs) div ?F * ?F) (concat cs)\<rparr>))" for cs
    using feedChunks_fold [of s eng cs] F empty by simp
  have len: "length ?rest = length ?all mod ?F"
    by (simp add: minus_div_mult_eq_mod)
  have "feedChunks eng s appends = Some (Inr ?s')" by (rule run)
  moreover have "handleFrames eng s (fullFrames ?F ?all) = Inr ?s0"
    using F by (intro handleFrames_foldl) simp
  moreover have "?s' = ?s0\<lparr>inputBuffer := inputBuffer ?s'\<rparr>" by simp
  moreover have "length (fullFrames ?F ?all) = length ?all div ?F"
    using F0 by (rule length_fullFrames)
  moreover have "\<forall>frame \<in> set (fullFrames ?F ?all). int (length frame) = frameSize s"
    using FF by (simp add: fullFrames_lengths)
  moreover have "concat (fullFrames ?F ?all) @ inputBuffer ?s' = ?all"
    using F0 by (simp add: concat_fullFrames)
  moreover have "length (inputBuffer ?s') = length ?all mod ?F"
    using len by simp
  moreover have "int (length (inputBuffer ?s')) < frameSize s"
  proof -
    have "length ?all mod ?F < ?F" using F0 by simp
    then have "int (length ?all mod ?F) < int ?F" by (simp only: of_nat_less_iff)
    then show ?thesis using len by (simp only: FF) simp
  qed
  moreover have "\<forall>appends'. concat appends' = ?all \<longrightarrow>
      feedChunks eng s appends' = feedChunks eng s appends"
    by (simp add: run)
  moreover have "\<forall>ios. \<not> isDestroy s \<and> \<not> notInitialized s \<and>
         (\<forall>(inputs, outputs) \<in> set ios. inputs \<noteq> [] \<and> hd inputs \<noteq> []) \<and>
         map (\<lambda>(inputs, outputs). mergeChannels (hd inputs)) ios = appends \<longrightarrow>
         (\<exists>s''. callbacks eng s ios = Some (Inr s'') \<and>
            s''\<lparr>outputBuffer := []\<rparr> = ?s'\<lparr>outputBuffer := []\<rparr>)"
  proof (intro allI impI)
    fix ios :: "(number list list list \<times> number list list list) list"
    assume a: "\<not> isDestroy s \<and> \<not> notInitialized s \<and>
         (\<forall>(inputs, outputs) \<in> set ios. inputs \<noteq> [] \<and> hd inputs \<noteq> []) \<and>
         map (\<lambda>(inputs, outputs). mergeChannels (hd inputs)) ios = appends"
    then have d: "\<not> isDestroy s" and r: "\<not> notInitialized s"
      and i: "\<forall>(inputs, outputs) \<in> set ios. inputs \<noteq> [] \<and> hd inputs \<noteq> []"
      and m: "map (\<lambda>(inputs, outputs). mergeChannels (hd inputs)) ios = appends"
      by blast+
    from callbacks_feedChunks [where s = s and t = s and eng = eng, OF refl F d r i]
    show "\<exists>s''. callbacks eng s ios = Some (Inr s'') \<and>
            s''\<lparr>outputBuffer := []\<rparr> = ?s'\<lparr>outputBuffer := []\<rparr>"
      unfolding m run by blast
  qed
  ultimately show ?thesis by blast
qed

theorem frame_extraction_witness:
  "0 < frameSize readyProcessor \<and> inputBuffer readyProcessor = [] \<and>
   fullFrames 2 [Fin (1/8), Fin (2/8), Fin (3/8), Fin (4/8), Fin (5/8)]
     = [[Fin (1/8), Fin (2/8)], [Fin (3/8), Fin (4/8)]] \<and>
   (\<exists>s'. feedChunks echoEngine readyProcessor
            [[Fin (1/8)], [Fin (2/8), Fin (3/8)], [], [Fin (4/8), Fin (5/8)]] = Some (Inr s') \<and>
         inputBuffer s' = [Fin (5/8)]) \<and>
   feedChunks echoEngine readyProcessor
     [[Fin (1/8), Fin (2/8), Fin (3/8), Fin (4/8), Fin (5/8)]]
     = feedChunks echoEngine readyProcessor
         [[Fin (1/8)], [Fin (2/8), Fin (3/8)], [], [Fin (4/8), Fin (5/8)]] \<and>
   (\<exists>s''. callbacks echoEngine readyProcessor
            [([[[Fin (1/8)]]], [[[Fin 0]]]), ([[[Fin (2/8), Fin (3/8)]]], [[[Fin 0, Fin 0]]]),
             ([[[]]], [[[]]]), ([[[Fin (4/8), Fin (5/8)]]], [[[Fin 0, Fin 0]]])] = Some (Inr s'') \<and>
         inputBuffer s'' = [Fin (5/8)])"
proof -
  let ?appends = "[[Fin (1/8)], [Fin (2/8), Fin (3/8)], [], [Fin (4/8), Fin (5/8)]]"
  let ?ios = "[([[[Fin (1/8)]]], [[[Fin 0]]]), ([[[Fin (2/8), Fin (3/8)]]], [[[Fin 0, Fin 0]]]),
             ([[[]]], [[[]]]), ([[[Fin (4/8), Fin (5/8)]]], [[[Fin 0, Fin 0 :: number]]])]"
  have F: "0 < frameSize readyProcessor" and e: "inputBuffer readyProcessor = []"
    and d: "\<not> isDestroy readyProcessor" and r: "\<not> notInitialized readyProcessor"
    by (simp_all add: readyProcessor_def constructor_def notInitialized_def)
  have two: "nat (frameSize readyProcessor) = 2"
    by (simp add: readyProcessor_def constructor_def)
  have frames: "fullFrames 2 [Fin (1/8), Fin (2/8), Fin (3/8), Fin (4/8), Fin (5/8)]
     = [[Fin (1/8), Fin (2/8)], [Fin (3/8), Fin (4/8)]]"
    by (simp add: fullFrames_step)
  have i: "\<forall>(inputs, outputs) \<in> set ?ios. inputs \<noteq> [] \<and> hd inputs \<noteq> []"
    by simp
  have m: "map (\<lambda>(inputs, outputs). mergeChannels (hd inputs)) ?ios = ?appends"
    by simp
  from frame_extraction [OF F e, of echoEngine ?appends]
  obtain s' where run: "feedChunks echoEngine readyProcessor ?appends = Some (Inr s')"
    and cat: "concat (fullFrames (nat (frameSize readyProcessor)) (concat ?appends)) @ inputBuffer s'
                = concat ?appends"
    and split: "\<forall>appends'. concat appends' = concat ?appends \<longrightarrow>
         feedChunks echoEngine readyProcessor appends' = feedChunks echoEngine readyProcessor ?appends"
    and cb: "\<forall>ios. \<not> isDestroy readyProcessor \<and> \<not> notInitialized readyProcessor \<and>
         (\<forall>(inputs, outputs) \<in> set ios. inputs \<noteq> [] \<and> hd inputs \<noteq> []) \<and>
         map (\<lambda>(inputs, outputs). mergeChannels (hd inputs)) ios = ?appends \<longrightarrow>
         (\<exists>s''. callbacks echoEngine readyProcessor ios = Some (Inr s'') \<and>
            s''\<lparr>outputBuffer := []\<rparr> = s'\<lparr>outputBuffer := []\<rparr>)"
    by blast
  from cat have rest: "inputBuffer s' = [Fin (5/8)]"
    using frames by (simp add: two)
  have pre: "\<not> isDestroy readyProcessor \<and> \<not> notInitialized readyProcessor \<and>
         (\<forall>(inputs, outputs) \<in> set ?ios. inputs \<noteq> [] \<and> hd inputs \<noteq> []) \<and>
         map (\<lambda>(inputs, outputs). mergeChannels (hd inputs)) ?ios = ?appends"
    using d r i m by (intro conjI)
  from cb [rule_format, OF pre]
  obtain s'' where c: "callbacks echoEngine readyProcessor ?ios = Some (Inr s'')"
    and same: "s''\<lparr>outputBuffer := []\<rparr> = s'\<lparr>outputBuffer := []\<rparr>"
    by blast
  from same have "inputBuffer s'' = inputBuffer s'"
    by (rule modulo_output_fields)
  with rest c have "\<exists>s''. callbacks echoEngine readyProcessor ?ios = Some (Inr s'') \<and>
         inputBuffer s'' = [Fin (5/8)]"
    by simp
  moreover have "feedChunks echoEngine readyProcessor
     [[Fin (1/8), Fin (2/8), Fin (3/8), Fin (4/8), Fin (5/8)]]
     = feedChunks echoEngine readyProcessor ?appends"
    by (rule split [rule_format]) simp
  ultimately show ?thesis using run rest F e frames by blast
qed

subsection \<open>Voice activity smoothing and the silence gate\<close>

lemma vadHistory_updateVadHistory:
  "vadHistory (updateVadHistory s vad) =
     (if length (vadHistory s) < 5 then vadHistory s @ [vad] else tl (vadHistory s) @ [vad])"
  by (cases "vadHistory s") (simp_all add: updateVadHistory_def Let_def)

lemma silenceCounter_updateVadHistory:
  "silenceCounter (updateVadHistory s vad) =
     (if num_lt (avgVad (vadHistory (updateVadHistory s vad))) (silenceThreshold s)
      then silenceCounter s + 1 else 0)"
  by (simp add: updateVadHistory_def Let_def)

lemma length_vadHistory_updateVadHistory:
  "length (vadHistory s) \<le> 5 \<Longrightarrow> length (vadHistory (updateVadHistory s vad)) \<le> 5"
  by (simp add: vadHistory_updateVadHistory)

lemma avgVad_map_Fin:
  assumes "rs \<noteq> []" and "\<forall>k \<le> length rs. float64 (sum_list (take k rs))"
    and "float64 (arithmeticMean rs)"
  shows "avgVad (map Fin rs) = Fin (arithmeticMean rs)"
  using mean_exact [OF assms] by (simp add: avgVad_def)

lemma avgVad_between:
  assumes "h \<noteq> []" and "length h \<le> 5"
    and "\<forall>v \<in> set h. \<exists>x. v = Fin x \<and> lo \<le> x \<and> x \<le> hi"
    and "float32 lo" and "float32 hi"
  shows "\<exists>q. avgVad h = Fin q \<and> lo \<le> q \<and> q \<le> hi"
proof -
  have "length h < 2 ^ 29" using assms(2) by simp
  from mean_between [OF assms(1) this assms(3,4,5)] show ?thesis
    by (simp add: avgVad_def)
qed

lemma vadHistory_constant_step:
  assumes "set (vadHistory s) \<subseteq> {c}" and "length (vadHistory s) \<le> 5"
  shows "\<exists>k. 0 < k \<and> k \<le> 5 \<and> vadHistory (updateVadHistory s c) = replicate k c"
proof -
  from assms(1) have h: "vadHistory s = replicate (length (vadHistory s)) c"
    by (simp add: replicate_length_same subset_iff)
  show ?thesis
  proof (cases "length (vadHistory s) < 5")
    case True
    have "vadHistory s @ [c] = replicate (Suc (length (vadHistory s))) c"
      by (subst h) (simp add: replicate_append_same)
    with True show ?thesis
      by (intro exI [of _ "Suc (length (vadHistory s))"]) (simp add: vadHistory_updateVadHistory)
  next
    case False
    with assms(2) have five: "length (vadHistory s) = 5" by simp
    have "tl (vadHistory s) @ [c] = replicate 5 c"
      by (subst h) (simp add: five eval_nat_numeral)
    with False show ?thesis
      by (intro exI [of _ 5]) (simp add: vadHistory_updateVadHistory)
  qed
qed

lemma constant_step:
  assumes "set (vadHistory s) \<subseteq> {c}" and "length (vadHistory s) \<le> 5"
    and "isFinite c \<longrightarrow> binary32 c"
  shows "set (vadHistory (updateVadHistory s c)) \<subseteq> {c}"
    and "length (vadHistory (updateVadHistory s c)) \<le> 5"
    and "silenceCounter (updateVadHistory s c) =
           (if num_lt c (silenceThreshold s) then silenceCounter s + 1 else 0)"
proof -
  from vadHistory_constant_step [OF assms(1,2)]
  obtain k where k: "0 < k" "k \<le> 5" "vadHistory (updateVadHistory s c) = replicate k c"
    by blast
  then show "set (vadHistory (updateVadHistory s c)) \<subseteq> {c}" by simp
  from k show "length (vadHistory (updateVadHistory s c)) \<le> 5" by simp
  have "k < 2 ^ 29" using k(2) by simp
  moreover have "\<forall>x. c = Fin x \<longrightarrow> float32 x" using assms(3) by auto
  ultimately have "avgVad (replicate k c) = c" using k(1) by (intro avgVad_replicate)
  with k show "silenceCounter (updateVadHistory s c) =
           (if num_lt c (silenceThreshold s) then silenceCounter s + 1 else 0)"
    by (simp add: silenceCounter_updateVadHistory)
qed

lemma foldl_updateVadHistory_threshold [simp]:
  "silenceThreshold (foldl updateVadHistory s vs) = silenceThreshold s"
  by (induction vs arbitrary: s) simp_all

lemma constant_below:
  assumes "set (vadHistory s) \<subseteq> {c}" and "length (vadHistory s) \<le> 5"
    and "isFinite c \<longrightarrow> binary32 c" and "num_lt c (silenceThreshold s)"
  shows "silenceCounter (foldl updateVadHistory s (replicate n c)) = silenceCounter s + n"
  using assms(1,2,4)
proof (induction n arbitrary: s)
  case 0
  then show ?case by simp
next
  case (Suc n)
  from constant_step [OF Suc.prems(1,2) assms(3)] Suc.prems(3)
  have "set (vadHistory (updateVadHistory s c)) \<subseteq> {c}"
    and "length (vadHistory (updateVadHistory s c)) \<le> 5"
    and "silenceCounter (updateVadHistory s c) = silenceCounter s + 1"
    and "num_lt c (silenceThreshold (updateVadHistory s c))"
    by simp_all
  with Suc.IH [of "updateVadHistory s c"] show ?case by simp
qed

lemma constant_not_below:
  assumes "set (vadHistory s) \<subseteq> {c}" and "length (vadHistory s) \<le> 5"
    and "isFinite c \<longrightarrow> binary32 c" and "\<not> num_lt c (silenceThreshold s)" and "0 < n"
  shows "silenceCounter (foldl updateVadHistory s (replicate n c)) = 0"
  using assms(1,2,4,5)
proof (induction n arbitrary: s)
  case 0
  then show ?case by simp
next
  case (Suc n)
  from constant_step [OF Suc.prems(1,2) assms(3)] Suc.prems(3)
  have inv: "set (vadHistory (updateVadHistory s c)) \<subseteq> {c}"
    and len: "length (vadHistory (updateVadHistory s c)) \<le> 5"
    and zero: "silenceCounter (updateVadHistory s c) = 0"
    and thr: "\<not> num_lt c (silenceThreshold (updateVadHistory s c))"
    by simp_all
  show ?case
  proof (cases n)
    case 0
    with zero show ?thesis by simp
  next
    case (Suc m)
    with Suc.IH [OF inv len thr] show ?thesis by simp
  qed
qed

text \<open>
  Claim C6, as the code has it. \<^verbatim>\<open>updateVadHistory(vad)\<close> appends the score and drops
  the oldest entry when more than 5 are held, so that a window of at most 5 scores
  stays one; the counter is then incremented when the mean of the window is below the
  threshold and reset to 0 otherwise. The mean is computed in binary64 arithmetic, the
  sum from left to right: it is the arithmetic mean of the scores when the partial
  sums and the quotient are binary64 values, and it always lies between two binary32
  values that enclose the scores. Consequently, from a window that holds nothing but
  the score \<open>c\<close> (the empty window included), where \<open>c\<close> is a binary32 value as the
  engine returns it (or is not finite), \<open>n\<close> frames of score \<open>c\<close> below the threshold
  add \<open>n\<close> to the counter, and frames of a score \<open>c\<close> not below the threshold (at or
  above it) leave it at 0.
\<close>

theorem vad_smoother:
  "vadHistory (updateVadHistory s vad) =
     (if length (vadHistory s) < 5 then vadHistory s @ [vad] else tl (vadHistory s) @ [vad]) \<and>
   (length (vadHistory s) \<le> 5 \<longrightarrow> length (vadHistory (updateVadHistory s vad)) \<le> 5) \<and>
   silenceCounter (updateVadHistory s vad) =
     (if num_lt (avgVad (vadHistory (updateVadHistory s vad))) (silenceThreshold s)
      then silenceCounter s + 1 else 0) \<and>
   (rs \<noteq> [] \<and> (\<forall>k \<le> length rs. float64 (sum_list (take k rs))) \<and>
    float64 (arithmeticMean rs) \<longrightarrow>
      avgVad (map Fin rs) = Fin (arithmeticMean rs)) \<and>
   (h \<noteq> [] \<and> length h \<le> 5 \<and> (\<forall>v \<in> set h. \<exists>x. v = Fin x \<and> lo \<le> x \<and> x \<le> hi) \<and>
    float32 lo \<and> float32 hi \<longrightarrow>
      (\<exists>q. avgVad h = Fin q \<and> lo \<le> q \<and> q \<le> hi)) \<and>
   (set (vadHistory s) \<subseteq> {c} \<and> length (vadHistory s) \<le> 5 \<and> (isFinite c \<longrightarrow> binary32 c) \<and>
    num_lt c (silenceThreshold s) \<longrightarrow>
      silenceCounter (foldl updateVadHistory s (replicate n c)) = silenceCounter s + n) \<and>
   (set (vadHistory s) \<subseteq> {c} \<and> length (vadHistory s) \<le> 5 \<and> (isFinite c \<longrightarrow> binary32 c) \<and>
    \<not> num_lt c (silenceThreshold s) \<and> 0 < n \<longrightarrow>
      silenceCounter (foldl updateVadHistory s (replicate n c)) = 0)"
proof (intro conjI impI)
  show "vadHistory (updateVadHistory s vad) =
     (if length (vadHistory s) < 5 then vadHistory s @ [vad] else tl (vadHistory s) @ [vad])"
    by (rule vadHistory_updateVadHistory)
  show "length (vadHistory (updateVadHistory s vad)) \<le> 5" if "length (vadHistory s) \<le> 5"
    using that by (rule length_vadHistory_updateVadHistory)
  show "silenceCounter (updateVadHistory s vad) =
     (if num_lt (avgVad (vadHistory (updateVadHistory s vad))) (silenceThreshold s)
      then silenceCounter s + 1 else 0)"
    by (rule silenceCounter_updateVadHistory)
  show "avgVad (map Fin rs) = Fin (arithmeticMean rs)"
    if "rs \<noteq> [] \<and> (\<forall>k \<le> length rs. float64 (sum_list (take k rs))) \<and>
        float64 (arithmeticMean rs)"
    using that by (intro avgVad_map_Fin) blast+
  show "\<exists>q. avgVad h = Fin q \<and> lo \<le> q \<and> q \<le> hi"
    if "h \<noteq> [] \<and> length h \<le> 5 \<and> (\<forall>v \<in> set h. \<exists>x. v = Fin x \<and> lo \<le> x \<and> x \<le> hi) \<and>
        float32 lo \<and> float32 hi"
    using that by (intro avgVad_between) blast+
  show "silenceCounter (foldl updateVadHistory s (replicate n c)) = silenceCounter s + n"
    if "set (vadHistory s) \<subseteq> {c} \<and> length (vadHistory s) \<le> 5 \<and>
        (isFinite c \<longrightarrow> binary32 c) \<and> num_lt c (silenceThreshold s)"
    using that by (intro constant_below) blast+
  show "silenceCounter (foldl updateVadHistory s (replicate n c)) = 0"
    if "set (vadHistory s) \<subseteq> {c} \<and> length (vadHistory s) \<le> 5 \<and>
        (isFinite c \<longrightarrow> binary32 c) \<and> \<not> num_lt c (silenceThreshold s) \<and> 0 < n"
    using that by (intro constant_not_below) blast+
qed

theorem vad_smoother_witness:
  "length (vadHistory readyProcessor) \<le> 5 \<and>
   length (vadHistory (updateVadHistory readyProcessor (Fin 0))) \<le> 5 \<and>
   float64 (sum_list (take 0 [1, 2])) \<and> float64 (sum_list (take 1 [1, 2])) \<and>
   float64 (sum_list (take 2 [1, 2])) \<and> float64 (arithmeticMean [1, 2]) \<and>
   avgVad [Fin 1, Fin 2] = Fin (3 / 2) \<and>
   float32 (1 / 4) \<and> float32 (1 / 2) \<and>
   (\<exists>q. avgVad [Fin (1 / 4), Fin (1 / 2)] = Fin q \<and> 1 / 4 \<le> q \<and> q \<le> 1 / 2) \<and>
   set (vadHistory readyProcessor) \<subseteq> {Fin 0} \<and> binary32 (Fin 0) \<and>
   num_lt (Fin 0) (silenceThreshold readyProcessor) \<and>
   silenceCounter (foldl updateVadHistory readyProcessor (replicate 7 (Fin 0))) = 7 \<and>
   set (vadHistory readyProcessor) \<subseteq> {Fin (1 / 8)} \<and> binary32 (Fin (1 / 8)) \<and>
   \<not> num_lt (Fin (1 / 8)) (silenceThreshold readyProcessor) \<and>
   silenceCounter (foldl updateVadHistory readyProcessor (replicate 7 (Fin (1 / 8)))) = 0"
proof -
  have h: "vadHistory readyProcessor = []"
    and t: "silenceThreshold readyProcessor = Fin (3602879701896397 / 36028797018963968)"
    and c: "silenceCounter readyProcessor = 0"
    by (simp_all add: readyProcessor_def constructor_def round64_tenth)
  have f0: "float64 0" by (rule float64I [where m = 0 and e = 0]) simp_all
  have f1: "float64 1" by (rule float64I [where m = 1 and e = 0]) simp_all
  have f3: "float64 3" by (rule float64I [where m = 3 and e = 0]) simp_all
  have fm: "float64 (3 / 2)" by (rule float64I [where m = 3 and e = "- 1"]) (simp_all add: pow2_def)
  have sums: "float64 (sum_list (take 0 [1, 2]))" "float64 (sum_list (take 1 [1, 2]))"
    "float64 (sum_list (take 2 [1, 2]))" "float64 (arithmeticMean [1, 2])"
    using f0 f1 f3 fm by (simp_all add: arithmeticMean_def)
  have partial: "\<forall>k \<le> length [1, 2 :: real]. float64 (sum_list (take k [1, 2]))"
  proof (intro allI impI)
    fix k :: nat assume "k \<le> length [1, 2 :: real]"
    then consider "k = 0" | "k = 1" | "k = 2" by fastforce
    then show "float64 (sum_list (take k [1, 2]))" using sums by cases simp_all
  qed
  have q: "float32 (1 / 4)" "float32 (1 / 2)"
    by (rule float32I [where m = 1 and e = "- 2"], simp_all add: pow2_def)
      (rule float32I [where m = 1 and e = "- 1"], simp_all add: pow2_def)
  have z: "binary32 (Fin 0)"
    using float32I [where x = 0 and m = 0 and e = 0] by simp
  have e: "binary32 (Fin (1 / 8))"
    using float32I [where x = "1 / 8" and m = 1 and e = "- 3"] by (simp add: pow2_def)
  have window: "\<forall>v \<in> set [Fin (1 / 4), Fin (1 / 2)].
      \<exists>x. v = Fin x \<and> (1 / 4 :: real) \<le> x \<and> x \<le> 1 / 2"
  proof
    fix v :: number assume "v \<in> set [Fin (1 / 4), Fin (1 / 2)]"
    then consider "v = Fin (1 / 4)" | "v = Fin (1 / 2)" by auto
    then show "\<exists>x. v = Fin x \<and> (1 / 4 :: real) \<le> x \<and> x \<le> 1 / 2"
    proof cases
      case 1
      then show ?thesis by (intro exI [of _ "1 / 4"]) simp
    next
      case 2
      then show ?thesis by (intro exI [of _ "1 / 2"]) simp
    qed
  qed
  have low: "num_lt (Fin 0) (silenceThreshold readyProcessor)"
    and high: "\<not> num_lt (Fin (1 / 8)) (silenceThreshold readyProcessor)"
    by (simp_all add: t)
  have len: "length (vadHistory readyProcessor) \<le> 5"
    and sub0: "set (vadHistory readyProcessor) \<subseteq> {Fin 0}"
    and sub8: "set (vadHistory readyProcessor) \<subseteq> {Fin (1 / 8)}"
    by (simp_all add: h)
  note first = vad_smoother [of readyProcessor "Fin 0" "[1, 2]" "[Fin (1 / 4), Fin (1 / 2)]"
      "1 / 4" "1 / 2" "Fin 0" 7]
  note second = vad_smoother [of readyProcessor "Fin 0" "[1, 2]" "[Fin (1 / 4), Fin (1 / 2)]"
      "1 / 4" "1 / 2" "Fin (1 / 8)" 7]
  note c2 = first [THEN conjunct2, THEN conjunct1]
  note c4 = first [THEN conjunct2, THEN conjunct2, THEN conjunct2, THEN conjunct1]
  note c5 = first [THEN conjunct2, THEN conjunct2, THEN conjunct2, THEN conjunct2,
      THEN conjunct1]
  note c6 = first [THEN conjunct2, THEN conjunct2, THEN conjunct2, THEN conjunct2,
      THEN conjunct2, THEN conjunct1]
  note c7 = second [THEN conjunct2, THEN conjunct2, THEN conjunct2, THEN conjunct2,
      THEN conjunct2, THEN conjunct2]
  have ne: "[1, 2 :: real] \<noteq> []" "[Fin (1 / 4), Fin (1 / 2)] \<noteq> []"
    "length [Fin (1 / 4), Fin (1 / 2)] \<le> 5" "0 < (7 :: nat)"
    by simp_all
  note len1 = c2 [THEN mp, OF len]
  note mean0 = c4 [THEN mp, OF conjI [OF ne(1) conjI [OF partial sums(4)]]]
  from mean0 have mean: "avgVad [Fin 1, Fin 2] = Fin (3 / 2)"
    by (simp add: arithmeticMean_def)
  note between = c5 [THEN mp,
      OF conjI [OF ne(2) conjI [OF ne(3) conjI [OF window conjI [OF q]]]]]
  have fz: "isFinite (Fin 0) \<longrightarrow> binary32 (Fin 0)"
    and fe: "isFinite (Fin (1 / 8)) \<longrightarrow> binary32 (Fin (1 / 8))"
    using z e by simp_all
  note seven0 = c6 [THEN mp, OF conjI [OF sub0 conjI [OF len conjI [OF fz low]]]]
  from seven0 have seven:
    "silenceCounter (foldl updateVadHistory readyProcessor (replicate 7 (Fin 0))) = 7"
    by (simp only: c add_0)
  note zero = c7 [THEN mp,
      OF conjI [OF sub8 conjI [OF len conjI [OF fe conjI [OF high ne(4)]]]]]
  from len len1 sums mean q between sub0 z low seven sub8 e high zero
  show ?thesis by (intro conjI)
qed

lemma float64_seventenths: "float64 seventenths" "float64 (2 * seventenths)"
proof -
  show "float64 seventenths"
    by (rule float64I [where m = 3152519739159347 and e = "- 52"])
      (simp_all add: seventenths_def pow2_def)
  show "float64 (2 * seventenths)"
    by (rule float64I [where m = 3152519739159347 and e = "- 51"])
      (simp_all add: seventenths_def pow2_def)
qed

lemma three_seventenths:
  "round64 (2 * seventenths + seventenths) = Fin (4728779608739020 / 2251799813685248)"
proof -
  have "round64 (2 * seventenths + seventenths) = Fin (of_int 4728779608739020 * pow2 (1 - 52))"
    by (rule round64_eval [where f = 4728779608739020])
      (simp_all add: seventenths_def pow2_def)
  then show ?thesis by (simp add: pow2_def)
qed

lemma third_of_sum:
  "round64 (4728779608739020 / 2251799813685248 / 3)
     = Fin (6305039478318693 / 9007199254740992)"
proof -
  have "round64 (4728779608739020 / 2251799813685248 / 3)
      = Fin (of_int 6305039478318693 * pow2 (- 1 - 52))"
    by (rule round64_eval [where f = 6305039478318693]) (simp_all add: pow2_def)
  then show ?thesis by (simp add: pow2_def)
qed

lemma avgVad_seventenths:
  "avgVad [Fin seventenths] = Fin seventenths"
  "avgVad [Fin seventenths, Fin seventenths] = Fin seventenths"
  "avgVad [Fin seventenths, Fin seventenths, Fin seventenths]
     = Fin (6305039478318693 / 9007199254740992)"
proof -
  have one: "round64 seventenths = Fin seventenths"
    and two: "round64 (2 * seventenths) = Fin (2 * seventenths)"
    using float64_seventenths by (simp_all add: round64_float64)
  have half: "round64 (2 * seventenths / 2) = Fin seventenths"
    using one by simp
  have three: "round64 (3 * seventenths) = Fin (4728779608739020 / 2251799813685248)"
    using three_seventenths by simp
  have third: "round64 (1182194902184755 / 1688849860263936)
      = Fin (6305039478318693 / 9007199254740992)"
    using third_of_sum by simp
  show "avgVad [Fin seventenths] = Fin seventenths"
    by (simp add: avgVad_def one)
  show "avgVad [Fin seventenths, Fin seventenths] = Fin seventenths"
    by (simp add: avgVad_def one two half del: nonzero_mult_div_cancel_left)
  show "avgVad [Fin seventenths, Fin seventenths, Fin seventenths]
     = Fin (6305039478318693 / 9007199254740992)"
    by (simp add: avgVad_def one two three third)
qed

text \<open>
  Three frames of the score 0.7 on the example processor, whose threshold is 0.7 and
  whose window is empty: the score is not below the threshold, but the rounded mean of
  three of them is, and the third frame is counted.
\<close>

theorem vad_smoother_counterexample:
  "float64 seventenths \<and>
   vadHistory thresholdExample = [] \<and> silenceCounter thresholdExample = 0 \<and>
   silenceThreshold thresholdExample = Fin seventenths \<and>
   \<not> num_lt (Fin seventenths) (silenceThreshold thresholdExample) \<and>
   avgVad [Fin seventenths, Fin seventenths, Fin seventenths]
     = Fin (6305039478318693 / 9007199254740992) \<and>
   map (\<lambda>n. silenceCounter (foldl updateVadHistory thresholdExample
                               (replicate n (Fin seventenths)))) [1, 2, 3] = [0, 0, 1] \<and>
   silenceCounter (foldl updateVadHistory thresholdExample (replicate 3 (Fin seventenths)))
     \<noteq> 0"
proof -
  have fields: "vadHistory thresholdExample = []" "silenceCounter thresholdExample = 0"
    "silenceThreshold thresholdExample = Fin seventenths"
    by (simp_all add: thresholdExample_def readyProcessor_def constructor_def)
  have below: "num_lt (Fin (6305039478318693 / 9007199254740992)) (Fin seventenths)"
    by (simp add: seventenths_def)
  define s1 where "s1 = updateVadHistory thresholdExample (Fin seventenths)"
  define s2 where "s2 = updateVadHistory s1 (Fin seventenths)"
  define s3 where "s3 = updateVadHistory s2 (Fin seventenths)"
  have s1: "vadHistory s1 = [Fin seventenths]" "silenceCounter s1 = 0"
    "silenceThreshold s1 = Fin seventenths"
    unfolding s1_def
    by (simp_all add: vadHistory_updateVadHistory silenceCounter_updateVadHistory fields
        avgVad_seventenths)
  have s2: "vadHistory s2 = [Fin seventenths, Fin seventenths]" "silenceCounter s2 = 0"
    "silenceThreshold s2 = Fin seventenths"
    unfolding s2_def
    by (simp_all add: vadHistory_updateVadHistory silenceCounter_updateVadHistory s1
        avgVad_seventenths)
  have h3: "vadHistory s3 = [Fin seventenths, Fin seventenths, Fin seventenths]"
    unfolding s3_def by (simp add: vadHistory_updateVadHistory s2)
  have "silenceCounter s3 =
      (if num_lt (avgVad (vadHistory s3)) (silenceThreshold s2) then silenceCounter s2 + 1
       else 0)"
    unfolding s3_def by (rule silenceCounter_updateVadHistory)
  then have s3: "silenceCounter s3 = 1"
    by (simp only: h3 avgVad_seventenths s2 below if_True)
  have runs: "foldl updateVadHistory thresholdExample (replicate 1 (Fin seventenths)) = s1"
    "foldl updateVadHistory thresholdExample (replicate 2 (Fin seventenths)) = s2"
    "foldl updateVadHistory thresholdExample (replicate 3 (Fin seventenths)) = s3"
    by (simp_all add: s1_def s2_def s3_def eval_nat_numeral)
  have counts: "map (\<lambda>n. silenceCounter (foldl updateVadHistory thresholdExample
                               (replicate n (Fin seventenths)))) [1, 2, 3] = [0, 0, 1]"
    by (simp only: list.map runs s1 s2 s3)
  have third: "silenceCounter (foldl updateVadHistory thresholdExample
                 (replicate 3 (Fin seventenths))) \<noteq> 0"
    by (simp only: runs s3)
  have notbelow: "\<not> num_lt (Fin seventenths) (silenceThreshold thresholdExample)"
    by (simp add: fields)
  from float64_seventenths(1) fields notbelow avgVad_seventenths(3) counts third
  show ?thesis by (intro conjI)
qed

lemma in_set_tl: "x \<in> set (tl xs) \<Longrightarrow> x \<in> set xs"
  by (cases xs) simp_all

lemma notInitialized_engine_update [simp]:
  "notInitialized (s\<lparr>engine := e\<rparr>) = notInitialized s"
  by (simp add: notInitialized_def)

lemma processFrame_engine_only:
  assumes "notInitialized s = notInitialized t" and "frameSize s = frameSize t"
    and "engine s = engine t"
  shows "map_sum id (\<lambda>(s', p, v). (engine s', notInitialized s', frameSize s', p, v))
           (processFrame eng s f)
       = map_sum id (\<lambda>(s', p, v). (engine s', notInitialized s', frameSize s', p, v))
           (processFrame eng t f)"
proof -
  define fr where
    "fr = (if int (length f) \<noteq> frameSize t then paddedFrame (frameSize t) f else Inr f)"
  define call where
    "call = (\<lambda>frame. eng (engine t)
                (map (\<lambda>i. toEngineDomain (frame ! i)) [0..<nat (frameSize t)]))"
  have pf: "processFrame eng u f =
     (if notInitialized t then Inr (u, f, Fin 0)
      else case fr of
          Inl err \<Rightarrow> Inl err
        | Inr frame \<Rightarrow>
            (case call frame of
               Returned e outputView vad \<Rightarrow>
                 Inr (u\<lparr>engine := e\<rparr>,
                      map (\<lambda>i. fromEngineDomain (outputView i)) [0..<nat (frameSize t)],
                      vad)
             | Threw e \<Rightarrow> Inr (u\<lparr>engine := e\<rparr>, frame, Fin 0)))"
    if "notInitialized u = notInitialized t" "frameSize u = frameSize t" "engine u = engine t"
    for u
    unfolding processFrame_def fr_def call_def Let_def that ..
  have s: "notInitialized s = notInitialized t" "frameSize s = frameSize t"
    "engine s = engine t" by (fact assms)+
  show ?thesis
    unfolding pf [OF s] pf [OF refl refl refl]
    by (simp add: assms split: sum.splits engine_result.splits)
qed

lemma engineRun_engine_only:
  assumes "notInitialized s = notInitialized t" and "frameSize s = frameSize t"
    and "engine s = engine t"
  shows "engineRun eng s fs = engineRun eng t fs"
  using assms
proof (induction fs arbitrary: s t)
  case Nil
  show ?case by simp
next
  case (Cons f fs)
  note eq = processFrame_engine_only [OF Cons.prems, of eng f]
  show ?case
  proof (cases "processFrame eng s f")
    case (Inl err)
    with eq have "processFrame eng t f = Inl err"
      by (cases "processFrame eng t f") simp_all
    with Inl show ?thesis by simp
  next
    case (Inr r)
    obtain s1 p v where r: "r = (s1, p, v)" by (cases r)
    from eq Inr r obtain t1 where t: "processFrame eng t f = Inr (t1, p, v)"
      and same: "engine s1 = engine t1" "notInitialized s1 = notInitialized t1"
        "frameSize s1 = frameSize t1"
      by (cases "processFrame eng t f") auto
    from Cons.IH [OF same(2,3,1)] Inr r t show ?thesis by simp
  qed
qed

lemma engineRun_Cons:
  assumes "engineRun eng s (f # fs) = Inr run"
  obtains s1 p v rest where "processFrame eng s f = Inr (s1, p, v)"
    and "engineRun eng s1 fs = Inr rest" and "run = (p, v) # rest"
proof (cases "processFrame eng s f")
  case (Inl err)
  with assms show ?thesis by simp
next
  case (Inr r)
  obtain s1 p v where r: "r = (s1, p, v)" by (cases r)
  with Inr assms obtain rest where "engineRun eng s1 fs = Inr rest" "run = (p, v) # rest"
    by (cases "engineRun eng s1 fs") auto
  with Inr r that show ?thesis by blast
qed

lemma engineRun_returns:
  "notInitialized s \<or> 0 \<le> frameSize s \<Longrightarrow> \<exists>run. engineRun eng s fs = Inr run"
proof (induction fs arbitrary: s)
  case Nil
  show ?case by simp
next
  case (Cons f fs)
  have "\<exists>r. processFrame eng s f = Inr r"
  proof (cases "processFrame eng s f")
    case (Inl err)
    with Cons.prems processFrame_throws [of eng s f err] show ?thesis by auto
  next
    case (Inr r)
    then show ?thesis by blast
  qed
  then obtain r where "processFrame eng s f = Inr r" ..
  then obtain s1 p v where pf: "processFrame eng s f = Inr (s1, p, v)" by (cases r) auto
  from processFrame_keeps(7,8) [OF pf] Cons.prems
  have "notInitialized s1 \<or> 0 \<le> frameSize s1" by simp
  from Cons.IH [OF this] obtain rest where "engineRun eng s1 fs = Inr rest" by blast
  with pf show ?case by simp
qed

lemma engineRun_take:
  "engineRun eng s fs = Inr run \<Longrightarrow> engineRun eng s (take k fs) = Inr (take k run)"
proof (induction fs arbitrary: s k run)
  case Nil
  then show ?case by simp
next
  case (Cons f fs)
  from Cons.prems obtain s1 p v rest where pf: "processFrame eng s f = Inr (s1, p, v)"
    and rest: "engineRun eng s1 fs = Inr rest" and run: "run = (p, v) # rest"
    by (rule engineRun_Cons)
  show ?case
  proof (cases k)
    case 0
    then show ?thesis by simp
  next
    case (Suc j)
    with Cons.IH [OF rest, of j] pf run show ?thesis by simp
  qed
qed

text \<open>
  A run of frames whose scores are binary32 values below the threshold, on a window of
  such scores: every frame is counted, and the frames appended are the leading ones
  for which the counter does not yet exceed \<open>maxSilenceFrames\<close>.
\<close>

lemma quiet_run:
  assumes "engineRun eng s fs = Inr run"
    and "\<forall>v \<in> set (map snd run). binary32 v \<and> num_lt v (silenceThreshold s)"
    and "\<forall>v \<in> set (vadHistory s). binary32 v \<and> num_lt v (silenceThreshold s)"
    and "length (vadHistory s) \<le> 5"
  shows "\<exists>s'. handleFrames eng s fs = Inr s' \<and>
    silenceCounter s' = silenceCounter s + length fs \<and>
    outputBuffer s' =
      outputBuffer s @
      concat (take (nat (maxSilenceFrames s - int (silenceCounter s))) (map fst run))"
  using assms
proof (induction fs arbitrary: s run)
  case Nil
  then show ?case by simp
next
  case (Cons f fs)
  from Cons.prems(1) obtain s1 p v rest where pf: "processFrame eng s f = Inr (s1, p, v)"
    and rest: "engineRun eng s1 fs = Inr rest" and run: "run = (p, v) # rest"
    by (rule engineRun_Cons)
  note keep = processFrame_keeps [OF pf]
  let ?u = "updateVadHistory s1 v"
  define s2 where "s2 = (if int (silenceCounter s) + 1 > maxSilenceFrames s then ?u
                   else ?u\<lparr>outputBuffer := outputBuffer s @ p\<rparr>)"
  from Cons.prems(2) run have v: "binary32 v \<and> num_lt v (silenceThreshold s)"
    and quiet: "\<forall>w \<in> set (map snd rest). binary32 w \<and> num_lt w (silenceThreshold s)"
    by simp_all
  have hist: "\<forall>w \<in> set (vadHistory ?u). binary32 w \<and> num_lt w (silenceThreshold s)"
    using Cons.prems(3) v keep(1)
    by (auto simp: vadHistory_updateVadHistory dest: in_set_tl)
  have ne: "vadHistory ?u \<noteq> []"
    by (simp add: vadHistory_updateVadHistory)
  have len: "length (vadHistory ?u) \<le> 5"
    using Cons.prems(4) keep(1) by (simp add: length_vadHistory_updateVadHistory)
  then have len': "length (vadHistory ?u) < 2 ^ 29" by simp
  have cnt: "silenceCounter ?u = silenceCounter s + 1"
    using avgVad_below [OF hist ne len'] keep by (simp add: silenceCounter_updateVadHistory)
  have step: "handleFrame eng s f = Inr s2"
    using handleFrame_gate [OF pf] cnt by (simp add: s2_def)
  have run2: "engineRun eng s2 fs = Inr rest"
  proof -
    have "engineRun eng s2 fs = engineRun eng s1 fs"
      by (rule engineRun_engine_only) (simp_all add: s2_def)
    with rest show ?thesis by simp
  qed
  have thr: "silenceThreshold s2 = silenceThreshold s"
    and mx: "maxSilenceFrames s2 = maxSilenceFrames s"
    and c2: "silenceCounter s2 = silenceCounter s + 1"
    and h2: "vadHistory s2 = vadHistory ?u"
    using keep cnt by (simp_all add: s2_def)
  have "\<exists>s'. handleFrames eng s2 fs = Inr s' \<and>
    silenceCounter s' = silenceCounter s2 + length fs \<and>
    outputBuffer s' =
      outputBuffer s2 @
      concat (take (nat (maxSilenceFrames s2 - int (silenceCounter s2))) (map fst rest))"
    by (rule Cons.IH [OF run2]) (use quiet hist len in \<open>simp_all only: thr h2\<close>)
  then obtain s' where s': "handleFrames eng s2 fs = Inr s'"
    and cs': "silenceCounter s' = silenceCounter s2 + length fs"
    and os': "outputBuffer s' =
      outputBuffer s2 @
      concat (take (nat (maxSilenceFrames s2 - int (silenceCounter s2))) (map fst rest))"
    by blast
  have all: "handleFrames eng s (f # fs) = Inr s'" using step s' by simp
  have count: "silenceCounter s' = silenceCounter s + length (f # fs)"
    using cs' c2 by simp
  have out: "outputBuffer s' =
      outputBuffer s @
      concat (take (nat (maxSilenceFrames s - int (silenceCounter s))) (map fst run))"
  proof (cases "int (silenceCounter s) + 1 > maxSilenceFrames s")
    case True
    then have "outputBuffer s2 = outputBuffer s" using keep by (simp add: s2_def)
    with os' True show ?thesis by (simp add: run mx c2)
  next
    case False
    then have ob: "outputBuffer s2 = outputBuffer s @ p" by (simp add: s2_def)
    from False obtain k where k: "nat (maxSilenceFrames s - int (silenceCounter s)) = Suc k"
      by (cases "nat (maxSilenceFrames s - int (silenceCounter s))") auto
    then have k': "nat (maxSilenceFrames s2 - int (silenceCounter s2)) = k"
      unfolding c2 mx by linarith
    from os' have "outputBuffer s' = (outputBuffer s @ p) @ concat (take k (map fst rest))"
      unfolding k' ob .
    then show ?thesis by (simp add: run k)
  qed
  from all count out show ?case by blast
qed

text \<open>
  Claim C1, as the code has it. A handled frame is dropped exactly when
  \<open>silenceCounter > maxSilenceFrames\<close> at the gate, that is after
  \<^verbatim>\<open>updateVadHistory\<close> has counted the frame; otherwise it is appended to the output
  buffer. With a positive frame size the engine calls of the full frames in the input
  buffer all return to the loop. With \<open>maxSilenceFrames = 2\<close>, an empty window and a
  zero counter, 5 full frames whose scores are binary32 values (as the engine returns
  them) below the threshold bring the counter to 1, 2, 3, 4, 5: frames 1 and 2 are
  appended, frames 3, 4 and 5 are dropped.
\<close>

theorem silence_gating:
  "(processFrame eng s frame = Inr (s1, processedFrame, vad) \<longrightarrow>
      (\<exists>s2. handleFrame eng s frame = Inr s2 \<and>
         outputBuffer s2 =
           (if int (silenceCounter (updateVadHistory s1 vad)) > maxSilenceFrames s
            then outputBuffer s
            else outputBuffer s @ processedFrame))) \<and>
   (0 < frameSize s \<longrightarrow>
      (\<exists>run. engineRun eng s (fullFrames (nat (frameSize s)) (inputBuffer s)) = Inr run)) \<and>
   (0 < frameSize s \<and> length (fullFrames (nat (frameSize s)) (inputBuffer s)) = 5 \<and>
    vadHistory s = [] \<and> silenceCounter s = 0 \<and> maxSilenceFrames s = 2 \<and>
    engineRun eng s (fullFrames (nat (frameSize s)) (inputBuffer s)) = Inr run \<and>
    (\<forall>v \<in> set (map snd run). binary32 v \<and> num_lt v (silenceThreshold s)) \<longrightarrow>
    (\<exists>s'. processFullFrames eng s = Some (Inr s') \<and>
       (\<forall>k \<le> 5. \<exists>sk.
          handleFrames eng s (take k (fullFrames (nat (frameSize s)) (inputBuffer s)))
            = Inr sk \<and>
          silenceCounter sk = k) \<and>
       silenceCounter s' = 5 \<and>
       outputBuffer s' = outputBuffer s @ concat (take 2 (map fst run))))"
proof (intro conjI impI)
  assume pf: "processFrame eng s frame = Inr (s1, processedFrame, vad)"
  from handleFrame_gate [OF pf] processFrame_keeps(5) [OF pf]
  show "\<exists>s2. handleFrame eng s frame = Inr s2 \<and>
         outputBuffer s2 =
           (if int (silenceCounter (updateVadHistory s1 vad)) > maxSilenceFrames s
            then outputBuffer s
            else outputBuffer s @ processedFrame)"
    by simp
next
  assume "0 < frameSize s"
  then have "notInitialized s \<or> 0 \<le> frameSize s" by simp
  then show "\<exists>run. engineRun eng s (fullFrames (nat (frameSize s)) (inputBuffer s)) = Inr run"
    by (rule engineRun_returns)
next
  let ?fs = "fullFrames (nat (frameSize s)) (inputBuffer s)"
  assume a: "0 < frameSize s \<and> length ?fs = 5 \<and>
    vadHistory s = [] \<and> silenceCounter s = 0 \<and> maxSilenceFrames s = 2 \<and>
    engineRun eng s ?fs = Inr run \<and>
    (\<forall>v \<in> set (map snd run). binary32 v \<and> num_lt v (silenceThreshold s))"
  then have F: "0 < frameSize s" and five: "length ?fs = 5" and h: "vadHistory s = []"
    and c: "silenceCounter s = 0" and m: "maxSilenceFrames s = 2"
    and run: "engineRun eng s ?fs = Inr run"
    and quiet: "\<forall>v \<in> set (map snd run). binary32 v \<and> num_lt v (silenceThreshold s)"
    by simp_all
  have hist: "\<forall>v \<in> set (vadHistory s). binary32 v \<and> num_lt v (silenceThreshold s)"
    and len: "length (vadHistory s) \<le> 5"
    by (simp_all add: h)
  have prefix: "\<exists>sk. handleFrames eng s (take k ?fs) = Inr sk \<and> silenceCounter sk = k"
    if "k \<le> 5" for k
  proof -
    have "\<forall>v \<in> set (map snd (take k run)). binary32 v \<and> num_lt v (silenceThreshold s)"
      using quiet by (auto dest: in_set_takeD)
    from quiet_run [OF engineRun_take [OF run, of k] this hist len] that five c
    show ?thesis by auto
  qed
  from quiet_run [OF run quiet hist len] five c m
  obtain s0 where all: "handleFrames eng s ?fs = Inr s0" and cnt: "silenceCounter s0 = 5"
    and out: "outputBuffer s0 = outputBuffer s @ concat (take 2 (map fst run))"
    by auto
  have "0 \<le> frameSize s" using F by simp
  then have "handleFrames eng s ?fs = Inr (foldl (afterFrame eng) s ?fs)"
    by (intro handleFrames_foldl) simp
  with all have s0: "foldl (afterFrame eng) s ?fs = s0" by simp
  show "\<exists>s'. processFullFrames eng s = Some (Inr s') \<and>
       (\<forall>k \<le> 5. \<exists>sk. handleFrames eng s (take k ?fs) = Inr sk \<and> silenceCounter sk = k) \<and>
       silenceCounter s' = 5 \<and>
       outputBuffer s' = outputBuffer s @ concat (take 2 (map fst run))"
    using processFullFrames_fold [OF F, of eng] prefix cnt out by (simp add: s0)
qed

lemma gateExample_frames:
  "fullFrames (nat (frameSize gateExample)) (inputBuffer gateExample)
     = [[Fin (1/8)], [Fin (2/8)], [Fin (3/8)], [Fin (4/8)], [Fin (5/8)]]"
  by (simp add: gateExample_def fullFrames_step)

lemma gateExample_run:
  "engineRun echoEngine gateExample
     [[Fin (1/8)], [Fin (2/8)], [Fin (3/8)], [Fin (4/8)], [Fin (5/8)]]
   = Inr [([Fin (1/8)], Fin 0), ([Fin (2/8)], Fin 0), ([Fin (3/8)], Fin 0),
          ([Fin (4/8)], Fin 0), ([Fin (5/8)], Fin 0)]"
  by (simp add: gateExample_def readyProcessor_def constructor_def processFrame_def
      notInitialized_def echoEngine_def fromEngineDomain_Fin)

lemma binary32_0: "binary32 (Fin 0)"
  using float32I [where x = 0 and m = 0 and e = 0] by simp

text \<open>
  The run of five quiet frames on the example processor: the third frame is not
  appended.
\<close>

theorem silence_gating_counterexample:
  "vadHistory gateExample = [] \<and> silenceCounter gateExample = 0 \<and>
   maxSilenceFrames gateExample = 2 \<and>
   silenceThreshold gateExample = Fin (3602879701896397 / 36028797018963968) \<and>
   fullFrames (nat (frameSize gateExample)) (inputBuffer gateExample)
     = [[Fin (1/8)], [Fin (2/8)], [Fin (3/8)], [Fin (4/8)], [Fin (5/8)]] \<and>
   engineRun echoEngine gateExample
       (fullFrames (nat (frameSize gateExample)) (inputBuffer gateExample))
     = Inr [([Fin (1/8)], Fin 0), ([Fin (2/8)], Fin 0), ([Fin (3/8)], Fin 0),
            ([Fin (4/8)], Fin 0), ([Fin (5/8)], Fin 0)] \<and>
   binary32 (Fin 0) \<and>
   num_lt (Fin 0) (Fin (3602879701896397 / 36028797018963968)) \<and>
   map_option (map_sum id outputBuffer) (processFullFrames echoEngine gateExample)
     = Some (Inr [Fin (1/8), Fin (2/8)]) \<and>
   map_option (map_sum id outputBuffer) (processFullFrames echoEngine gateExample)
     \<noteq> Some (Inr [Fin (1/8), Fin (2/8), Fin (3/8)])"
proof -
  have F: "0 < frameSize gateExample" by (simp add: gateExample_def)
  have out: "map_option (map_sum id outputBuffer) (processFullFrames echoEngine gateExample)
          = Some (Inr [Fin (1/8), Fin (2/8)])"
    unfolding processFullFrames_fold [OF F] gateExample_frames
    by (simp add: gateExample_def readyProcessor_def constructor_def afterFrame_def
        handleFrame_def processFrame_def notInitialized_def echoEngine_def fromEngineDomain_Fin
        updateVadHistory_def avgVad_def shouldSkipFrame_def round64_tenth Let_def)
  then have differs:
    "map_option (map_sum id outputBuffer) (processFullFrames echoEngine gateExample)
     \<noteq> Some (Inr [Fin (1/8), Fin (2/8), Fin (3/8)])"
    by (simp only: option.inject sum.inject list.inject list.distinct simp_thms
        not_False_eq_True)
  have fields: "vadHistory gateExample = []" "silenceCounter gateExample = 0"
    "maxSilenceFrames gateExample = 2"
    "silenceThreshold gateExample = Fin (3602879701896397 / 36028797018963968)"
    by (simp_all add: gateExample_def readyProcessor_def constructor_def round64_tenth)
  have run: "engineRun echoEngine gateExample
       (fullFrames (nat (frameSize gateExample)) (inputBuffer gateExample))
     = Inr [([Fin (1/8)], Fin 0), ([Fin (2/8)], Fin 0), ([Fin (3/8)], Fin 0),
            ([Fin (4/8)], Fin 0), ([Fin (5/8)], Fin 0)]"
    unfolding gateExample_frames by (rule gateExample_run)
  have below: "num_lt (Fin 0) (Fin (3602879701896397 / 36028797018963968))" by simp
  from fields gateExample_frames run binary32_0 below out differs show ?thesis
    by (intro conjI)
qed

theorem silence_gating_witness:
  "processFrame echoEngine gateExample [Fin (1/8)]
     = Inr (gateExample\<lparr>engine := 1\<rparr>, [Fin (1/8)], Fin 0) \<and>
   (\<exists>s2. handleFrame echoEngine gateExample [Fin (1/8)] = Inr s2 \<and>
         outputBuffer s2 = [Fin (1/8)]) \<and>
   0 < frameSize gateExample \<and>
   length (fullFrames (nat (frameSize gateExample)) (inputBuffer gateExample)) = 5 \<and>
   vadHistory gateExample = [] \<and> silenceCounter gateExample = 0 \<and>
   maxSilenceFrames gateExample = 2 \<and>
   engineRun echoEngine gateExample
       (fullFrames (nat (frameSize gateExample)) (inputBuffer gateExample))
     = Inr [([Fin (1/8)], Fin 0), ([Fin (2/8)], Fin 0), ([Fin (3/8)], Fin 0),
            ([Fin (4/8)], Fin 0), ([Fin (5/8)], Fin 0)] \<and>
   binary32 (Fin 0) \<and> num_lt (Fin 0) (silenceThreshold gateExample) \<and>
   (\<exists>s'. processFullFrames echoEngine gateExample = Some (Inr s') \<and> silenceCounter s' = 5 \<and>
         outputBuffer s' = [Fin (1/8), Fin (2/8)])"
proof -
  let ?fs = "fullFrames (nat (frameSize gateExample)) (inputBuffer gateExample)"
  let ?run = "[([Fin (1/8)], Fin 0), ([Fin (2/8)], Fin 0), ([Fin (3/8)], Fin 0),
            ([Fin (4/8)], Fin 0), ([Fin (5/8 :: real)], Fin 0)]"
  have pf: "processFrame echoEngine gateExample [Fin (1/8)]
     = Inr (gateExample\<lparr>engine := 1\<rparr>, [Fin (1/8)], Fin 0)"
    by (simp add: gateExample_def readyProcessor_def constructor_def processFrame_def
        notInitialized_def echoEngine_def fromEngineDomain_Fin)
  have fields: "0 < frameSize gateExample" "vadHistory gateExample = []"
    "silenceCounter gateExample = 0" "maxSilenceFrames gateExample = 2"
    by (simp_all add: gateExample_def readyProcessor_def constructor_def)
  have thr: "silenceThreshold gateExample = Fin (3602879701896397 / 36028797018963968)"
    and ob: "outputBuffer gateExample = []"
    by (simp_all add: gateExample_def readyProcessor_def constructor_def round64_tenth)
  have five: "length ?fs = 5"
    by (simp add: gateExample_frames)
  have run: "engineRun echoEngine gateExample ?fs = Inr ?run"
    unfolding gateExample_frames by (rule gateExample_run)
  have below: "num_lt (Fin 0) (silenceThreshold gateExample)"
    by (simp add: thr)
  have quiet: "\<forall>v \<in> set (map snd ?run). binary32 v \<and> num_lt v (silenceThreshold gateExample)"
    using binary32_0 below by simp
  have gate: "\<not> int (silenceCounter (updateVadHistory (gateExample\<lparr>engine := 1\<rparr>) (Fin 0)))
                > maxSilenceFrames gateExample"
    by (simp add: fields updateVadHistory_def avgVad_def Let_def)
  note inst = silence_gating [of echoEngine gateExample "[Fin (1/8)]"
      "gateExample\<lparr>engine := 1\<rparr>" "[Fin (1/8)]" "Fin 0" ?run]
  from inst [THEN conjunct1, THEN mp, OF pf] gate
  have one: "\<exists>s2. handleFrame echoEngine gateExample [Fin (1/8)] = Inr s2 \<and>
         outputBuffer s2 = [Fin (1/8)]"
    by (simp add: ob)
  note pre = conjI [OF fields(1) conjI [OF five conjI [OF fields(2) conjI [OF fields(3)
      conjI [OF fields(4) conjI [OF run quiet]]]]]]
  from inst [THEN conjunct2, THEN conjunct2, THEN mp, OF pre]
  obtain s' where "processFullFrames echoEngine gateExample = Some (Inr s')"
    "silenceCounter s' = 5"
    "outputBuffer s' = outputBuffer gateExample @ concat (take 2 (map fst ?run))"
    by blast
  then have "\<exists>s'. processFullFrames echoEngine gateExample = Some (Inr s') \<and>
         silenceCounter s' = 5 \<and> outputBuffer s' = [Fin (1/8), Fin (2/8)]"
    unfolding ob by (simp add: eval_nat_numeral)
  with pf one fields five run binary32_0 below show ?thesis
    by (intro conjI)
qed

subsection \<open>mergeChannels\<close>

lemma foldl_accumulate:
  "foldl (accumulate i) (sm, n) channels =
     (foldl num_add sm (map Fin (finiteValuesAt channels i)),
      n + length (finiteValuesAt channels i))"
proof (induction channels arbitrary: sm n)
  case Nil
  show ?case by (simp add: finiteValuesAt_def)
next
  case (Cons ch channels)
  have step: "accumulate i (sm, n) ch =
      (foldl num_add sm (map Fin (finiteValuesAt [ch] i)), n + length (finiteValuesAt [ch] i))"
    by (cases "ch ! i") (simp_all add: accumulate_def finiteValuesAt_def Let_def)
  have app: "finiteValuesAt (ch # channels) i = finiteValuesAt [ch] i @ finiteValuesAt channels i"
    by (simp add: finiteValuesAt_def)
  show ?case
    by (simp add: step Cons.IH app)
qed

lemma mergedSample_mean:
  "mergedSample channels i =
     (if finiteValuesAt channels i = [] then Fin 0
      else storeFloat32 (num_div_count (foldl num_add (Fin 0) (map Fin (finiteValuesAt channels i)))
                           (length (finiteValuesAt channels i))))"
  by (simp add: mergedSample_def foldl_accumulate)

lemma finiteValuesAt_empty:
  "finiteValuesAt channels i = [] \<longleftrightarrow>
     (\<forall>ch \<in> set channels. i < length ch \<longrightarrow> \<not> isFinite (ch ! i))"
proof (induction channels)
  case Nil
  show ?case by (simp add: finiteValuesAt_def)
next
  case (Cons ch channels)
  have "finiteValuesAt (ch # channels) i = [] \<longleftrightarrow>
      (i < length ch \<longrightarrow> \<not> isFinite (ch ! i)) \<and> finiteValuesAt channels i = []"
    by (cases "ch ! i") (simp_all add: finiteValuesAt_def)
  with Cons show ?case by simp
qed

lemma length_finiteValuesAt: "length (finiteValuesAt channels i) \<le> length channels"
proof (induction channels)
  case Nil
  show ?case by (simp add: finiteValuesAt_def)
next
  case (Cons ch channels)
  have "length (finiteValuesAt (ch # channels) i) \<le> Suc (length (finiteValuesAt channels i))"
    by (cases "ch ! i") (simp_all add: finiteValuesAt_def)
  with Cons show ?case by simp
qed

lemma mergeChannels_two:
  assumes "2 \<le> length channels"
  shows "mergeChannels channels = map (mergedSample channels) [0..<length (hd channels)]"
proof -
  from assms obtain c0 c1 cs where "channels = c0 # c1 # cs"
    by (cases channels; cases "tl channels") auto
  then show ?thesis by simp
qed

lemma mergedSample_exact:
  assumes "vs = finiteValuesAt channels i" and "vs \<noteq> []"
    and "\<forall>k \<le> length vs. float64 (sum_list (take k vs))" and "float32 (arithmeticMean vs)"
  shows "mergedSample channels i = Fin (arithmeticMean vs)"
proof -
  have "num_div_count (foldl num_add (Fin 0) (map Fin vs)) (length vs) = Fin (arithmeticMean vs)"
    using assms(2,3) float32_float64 [OF assms(4)] by (rule mean_exact)
  with assms(1,2,4) show ?thesis
    by (simp add: mergedSample_mean round32_float32)
qed

lemma mergedSample_between:
  assumes "vs = finiteValuesAt channels i" and "vs \<noteq> []" and "length channels < 2 ^ 29"
    and "\<forall>x \<in> set vs. lo \<le> x \<and> x \<le> hi" and "float32 lo" and "float32 hi"
  shows "\<exists>q. mergedSample channels i = Fin q \<and> lo \<le> q \<and> q \<le> hi"
proof -
  have ne: "map Fin vs \<noteq> []" using assms(2) by simp
  have len: "length (map Fin vs) < 2 ^ 29"
    using length_finiteValuesAt [of channels i] assms(1,3) by simp
  have all: "\<forall>v \<in> set (map Fin vs). \<exists>x. v = Fin x \<and> lo \<le> x \<and> x \<le> hi"
    using assms(4) by auto
  from mean_between [OF ne len all assms(5,6)]
  obtain r where r: "num_div_count (foldl num_add (Fin 0) (map Fin vs)) (length vs) = Fin r"
    "lo \<le> r" "r \<le> hi"
    by auto
  from round32_between [OF r(2,3) assms(5,6)]
  obtain q where "round32 r = Fin q" "lo \<le> q" "q \<le> hi" by blast
  with r(1) assms(1,2) show ?thesis
    by (simp add: mergedSample_mean)
qed

text \<open>
  Claim C3, as the code has it. No channel gives no sample, and a single channel is
  returned as a copy, non-finite samples included. For two channels or more the result
  has the length of the first channel, and at each of its sample indices it is 0 when
  no channel holds a finite value there (in particular when all hold NaN); otherwise
  it is the mean of the finite values held there as the code computes it: their sum
  in channel order and its quotient by their number, in binary64 arithmetic, stored as
  a binary32 value. This is the arithmetic mean when the partial sums are binary64
  values and the mean is a binary32 value; and with fewer than \<open>2 ^ 29\<close> channels it
  lies between any two binary32 values that enclose the finite values.
\<close>

theorem merge_channels:
  "mergeChannels [] = [] \<and> mergeChannels [ch] = ch \<and>
   (2 \<le> length channels \<longrightarrow>
      length (mergeChannels channels) = length (hd channels) \<and>
      (\<forall>i < length (hd channels).
         mergeChannels channels ! i =
           (if \<forall>ch \<in> set channels. i < length ch \<longrightarrow> \<not> isFinite (ch ! i) then Fin 0
            else storeFloat32
                   (num_div_count
                      (foldl num_add (Fin 0) (map Fin (finiteValuesAt channels i)))
                      (length (finiteValuesAt channels i)))) \<and>
         (finiteValuesAt channels i \<noteq> [] \<and>
          (\<forall>k \<le> length (finiteValuesAt channels i).
              float64 (sum_list (take k (finiteValuesAt channels i)))) \<and>
          float32 (arithmeticMean (finiteValuesAt channels i)) \<longrightarrow>
            mergeChannels channels ! i = Fin (arithmeticMean (finiteValuesAt channels i))) \<and>
         (finiteValuesAt channels i \<noteq> [] \<and> length channels < 2 ^ 29 \<and>
          (\<forall>x \<in> set (finiteValuesAt channels i). lo \<le> x \<and> x \<le> hi) \<and>
          float32 lo \<and> float32 hi \<longrightarrow>
            (\<exists>q. mergeChannels channels ! i = Fin q \<and> lo \<le> q \<and> q \<le> hi))))"
proof (intro conjI impI allI)
  show "mergeChannels [] = []" by simp
  show "mergeChannels [ch] = ch" by simp
next
  assume two: "2 \<le> length channels"
  then show "length (mergeChannels channels) = length (hd channels)"
    by (simp add: mergeChannels_two)
next
  fix i
  assume two: "2 \<le> length channels" and i: "i < length (hd channels)"
  then have at: "mergeChannels channels ! i = mergedSample channels i"
    by (simp add: mergeChannels_two)
  show "mergeChannels channels ! i =
           (if \<forall>ch \<in> set channels. i < length ch \<longrightarrow> \<not> isFinite (ch ! i) then Fin 0
            else storeFloat32
                   (num_div_count
                      (foldl num_add (Fin 0) (map Fin (finiteValuesAt channels i)))
                      (length (finiteValuesAt channels i))))"
    unfolding at by (simp add: mergedSample_mean finiteValuesAt_empty)
  show "mergeChannels channels ! i = Fin (arithmeticMean (finiteValuesAt channels i))"
    if "finiteValuesAt channels i \<noteq> [] \<and>
          (\<forall>k \<le> length (finiteValuesAt channels i).
              float64 (sum_list (take k (finiteValuesAt channels i)))) \<and>
          float32 (arithmeticMean (finiteValuesAt channels i))"
    unfolding at using that by (intro mergedSample_exact [OF refl]) blast+
  show "\<exists>q. mergeChannels channels ! i = Fin q \<and> lo \<le> q \<and> q \<le> hi"
    if "finiteValuesAt channels i \<noteq> [] \<and> length channels < 2 ^ 29 \<and>
          (\<forall>x \<in> set (finiteValuesAt channels i). lo \<le> x \<and> x \<le> hi) \<and>
          float32 lo \<and> float32 hi"
    unfolding at using that by (intro mergedSample_between [OF refl]) blast+
qed

lemma mean_of_tenth_fifth:
  "arithmeticMean [tenth32, fifth32] = 40265319 / 268435456"
  by (simp add: arithmeticMean_def tenth32_def fifth32_def)

lemma stored_mean: "round32 (40265319 / 268435456) = Fin (5033165 / 33554432)"
proof -
  have "round32 (40265319 / 268435456) = Fin (of_int 10066330 * pow2 (- 3 - 23))"
    by (rule round32_eval [where f = 10066329]) (simp_all add: pow2_def)
  then show ?thesis by (simp add: pow2_def)
qed

lemma double_mean:
  "num_div_count (foldl num_add (Fin 0) (map Fin [tenth32, fifth32])) (length [tenth32, fifth32])
     = Fin (40265319 / 268435456)"
proof -
  have f0: "float64 0" by (rule float64I [where m = 0 and e = 0]) simp_all
  have f1: "float64 tenth32"
    by (rule float64I [where m = 13421773 and e = "- 27"]) (simp_all add: tenth32_def pow2_def)
  have f2: "float64 (tenth32 + fifth32)"
    by (rule float64I [where m = 40265319 and e = "- 27"])
      (simp_all add: tenth32_def fifth32_def pow2_def)
  have fm: "float64 (arithmeticMean [tenth32, fifth32])"
    unfolding mean_of_tenth_fifth
    by (rule float64I [where m = 40265319 and e = "- 28"]) (simp_all add: pow2_def)
  have partial: "\<forall>k \<le> length [tenth32, fifth32]. float64 (sum_list (take k [tenth32, fifth32]))"
  proof (intro allI impI)
    fix k :: nat assume "k \<le> length [tenth32, fifth32]"
    then consider "k = 0" | "k = 1" | "k = 2" by fastforce
    then show "float64 (sum_list (take k [tenth32, fifth32]))"
      using f0 f1 f2 by cases simp_all
  qed
  have "[tenth32, fifth32] \<noteq> []" by simp
  from mean_exact [OF this partial fm] show ?thesis
    by (simp only: mean_of_tenth_fifth)
qed

text \<open>
  A single channel whose only sample is NaN: the merged sample is NaN, not 0. And two
  channels that hold the binary32 values nearest to 0.1 and to 0.2: the merged sample
  is their mean rounded to binary32, not their arithmetic mean.
\<close>

theorem merge_channels_counterexample:
  "[[NaN]] \<noteq> [] \<and> \<not> isFinite ([NaN] ! 0) \<and> mergeChannels [[NaN]] ! 0 = NaN \<and> NaN \<noteq> Fin 0 \<and>
   float32 tenth32 \<and> float32 fifth32 \<and>
   finiteValuesAt [[Fin tenth32], [Fin fifth32]] 0 = [tenth32, fifth32] \<and>
   arithmeticMean [tenth32, fifth32] = 40265319 / 268435456 \<and>
   mergeChannels [[Fin tenth32], [Fin fifth32]] ! 0 = Fin (5033165 / 33554432) \<and>
   Fin (5033165 / 33554432) \<noteq> Fin (arithmeticMean [tenth32, fifth32])"
proof -
  have single: "[[NaN]] \<noteq> []" "\<not> isFinite ([NaN] ! 0)" "mergeChannels [[NaN]] ! 0 = NaN"
    "NaN \<noteq> Fin 0"
    by simp_all
  have fl: "float32 tenth32" "float32 fifth32"
    by (rule float32I [where m = 13421773 and e = "- 27"], simp_all add: tenth32_def pow2_def)
      (rule float32I [where m = 13421773 and e = "- 26"], simp_all add: fifth32_def pow2_def)
  have vals: "finiteValuesAt [[Fin tenth32], [Fin fifth32]] 0 = [tenth32, fifth32]"
    by (simp add: finiteValuesAt_def)
  have "mergeChannels [[Fin tenth32], [Fin fifth32]] ! 0
      = mergedSample [[Fin tenth32], [Fin fifth32]] 0"
    by simp
  also have "\<dots> = storeFloat32 (Fin (40265319 / 268435456))"
    unfolding mergedSample_mean vals using double_mean by simp
  also have "\<dots> = Fin (5033165 / 33554432)"
    by (simp only: storeFloat32.simps stored_mean)
  finally have merged:
    "mergeChannels [[Fin tenth32], [Fin fifth32]] ! 0 = Fin (5033165 / 33554432)" .
  have differs: "Fin (5033165 / 33554432) \<noteq> Fin (arithmeticMean [tenth32, fifth32])"
    unfolding mean_of_tenth_fifth by simp
  from single fl vals mean_of_tenth_fifth merged differs show ?thesis
    by (intro conjI)
qed

theorem merge_channels_witness:
  "2 \<le> length [[NaN, Fin 1, Fin 3], [PInf, Fin 2]] \<and>
   finiteValuesAt [[NaN, Fin 1, Fin 3], [PInf, Fin 2]] 0 = [] \<and>
   finiteValuesAt [[NaN, Fin 1, Fin 3], [PInf, Fin 2]] 1 = [1, 2] \<and>
   finiteValuesAt [[NaN, Fin 1, Fin 3], [PInf, Fin 2]] 2 = [3] \<and>
   float64 0 \<and> float64 1 \<and> float64 3 \<and> float32 (3 / 2) \<and> float32 3 \<and>
   float32 1 \<and> float32 2 \<and>
   mergeChannels [[NaN, Fin 1, Fin 3], [PInf, Fin 2]] = [Fin 0, Fin (3 / 2), Fin 3] \<and>
   (\<exists>q. mergeChannels [[NaN, Fin 1, Fin 3], [PInf, Fin 2]] ! 1 = Fin q \<and> 1 \<le> q \<and> q \<le> 2)"
proof -
  let ?cs = "[[NaN, Fin 1, Fin 3], [PInf, Fin 2]]"
  have two: "2 \<le> length ?cs" by simp
  have vals: "finiteValuesAt ?cs 0 = []" "finiteValuesAt ?cs 1 = [1, 2]"
    "finiteValuesAt ?cs 2 = [3]"
    by (simp_all add: finiteValuesAt_def)
  have f0: "float64 0" by (rule float64I [where m = 0 and e = 0]) simp_all
  have f1: "float64 1" by (rule float64I [where m = 1 and e = 0]) simp_all
  have f3: "float64 3" by (rule float64I [where m = 3 and e = 0]) simp_all
  have m1: "float32 (3 / 2)"
    by (rule float32I [where m = 3 and e = "- 1"]) (simp_all add: pow2_def)
  have m2: "float32 3" by (rule float32I [where m = 3 and e = 0]) simp_all
  have b1: "float32 1" by (rule float32I [where m = 1 and e = 0]) simp_all
  have b2: "float32 2" by (rule float32I [where m = 2 and e = 0]) simp_all
  note inst = merge_channels [where ch = "[NaN]" and channels = ?cs and lo = 1 and hi = 2]
  note body = inst [THEN conjunct2, THEN conjunct2, THEN mp, OF two]
  note len = body [THEN conjunct1]
  note at = body [THEN conjunct2, rule_format]
  define m where "m = mergeChannels ?cs"
  have i0: "0 < length (hd ?cs)" and i1: "1 < length (hd ?cs)" and i2: "2 < length (hd ?cs)"
    by simp_all
  have none: "\<forall>ch \<in> set ?cs. 0 < length ch \<longrightarrow> \<not> isFinite (ch ! 0)" by simp
  have "m ! 0 = Fin 0"
    using at [OF i0, THEN conjunct1] unfolding m_def [symmetric]
    by (simp only: if_P [OF none])
  moreover have "m ! 1 = Fin (3 / 2)"
  proof -
    have ne: "finiteValuesAt ?cs 1 \<noteq> []" unfolding vals by simp
    have partial: "\<forall>k \<le> length (finiteValuesAt ?cs 1).
        float64 (sum_list (take k (finiteValuesAt ?cs 1)))"
    proof (intro allI impI)
      fix k :: nat assume "k \<le> length (finiteValuesAt ?cs 1)"
      then consider "k = 0" | "k = 1" | "k = 2" unfolding vals by fastforce
      then show "float64 (sum_list (take k (finiteValuesAt ?cs 1)))"
        unfolding vals using f0 f1 f3 by cases simp_all
    qed
    have mean: "float32 (arithmeticMean (finiteValuesAt ?cs 1))"
      unfolding vals using m1 by (simp add: arithmeticMean_def)
    from at [OF i1, THEN conjunct2, THEN conjunct1, THEN mp,
        OF conjI [OF ne conjI [OF partial mean]]]
    show ?thesis unfolding m_def [symmetric] vals by (simp add: arithmeticMean_def)
  qed
  moreover have "m ! 2 = Fin 3"
  proof -
    have ne: "finiteValuesAt ?cs 2 \<noteq> []" unfolding vals by simp
    have partial: "\<forall>k \<le> length (finiteValuesAt ?cs 2).
        float64 (sum_list (take k (finiteValuesAt ?cs 2)))"
    proof (intro allI impI)
      fix k :: nat assume "k \<le> length (finiteValuesAt ?cs 2)"
      then consider "k = 0" | "k = 1" unfolding vals by fastforce
      then show "float64 (sum_list (take k (finiteValuesAt ?cs 2)))"
        unfolding vals using f0 f3 by cases simp_all
    qed
    have mean: "float32 (arithmeticMean (finiteValuesAt ?cs 2))"
      unfolding vals using m2 by (simp add: arithmeticMean_def)
    from at [OF i2, THEN conjunct2, THEN conjunct1, THEN mp,
        OF conjI [OF ne conjI [OF partial mean]]]
    show ?thesis unfolding m_def [symmetric] vals by (simp add: arithmeticMean_def)
  qed
  moreover have "length m = 3" using len unfolding m_def [symmetric] by simp
  ultimately have "m = [Fin 0, Fin (3 / 2), Fin 3]"
    by (simp add: list_eq_iff_nth_eq less_Suc_eq eval_nat_numeral)
  then have merged: "mergeChannels ?cs = [Fin 0, Fin (3 / 2), Fin 3]"
    unfolding m_def .
  have between: "\<exists>q. mergeChannels ?cs ! 1 = Fin q \<and> 1 \<le> q \<and> q \<le> 2"
  proof -
    have ne: "finiteValuesAt ?cs 1 \<noteq> []" unfolding vals by simp
    have few: "length ?cs < 2 ^ 29" by simp
    have enc: "\<forall>x \<in> set (finiteValuesAt ?cs 1). 1 \<le> x \<and> x \<le> 2" unfolding vals by simp
    from at [OF i1, THEN conjunct2, THEN conjunct2, THEN mp,
        OF conjI [OF ne conjI [OF few conjI [OF enc conjI [OF b1 b2]]]]]
    show ?thesis .
  qed
  from two vals f0 f1 f3 m1 m2 b1 b2 merged between show ?thesis
    by (intro conjI)
qed

subsection \<open>Fallbacks, silence and teardown\<close>

lemma initRnnoise_failed:
  assumes "initRnnoise debug (constructor e) instantiated = (s, True)"
  shows "notInitialized s" and "\<not> isDestroy s"
  using assms
  by (auto simp: initRnnoise_def constructor_def notInitialized_def Let_def
      split: option.splits if_splits)

lemma copyToChannel_eq:
  "copyToChannel sourceChannel channel =
     take (length channel) sourceChannel @ drop (length sourceChannel) channel"
  by (simp add: copyToChannel_def set_from_start_def Let_def min_def)

lemma length_copyToChannel [simp]:
  "length (copyToChannel sourceChannel channel) = length channel"
  by (simp add: copyToChannel_eq)

text \<open>
  Claim C4, as the code has it. A freshly constructed processor is neither destroyed
  nor initialised, and it is still so after an initialisation that failed. While the
  processor is not destroyed and not initialised, the callback writes the outputs in
  passthrough and returns true, leaving the processor as it is: with no input source, or
  when the first source has no channel, every output channel is zero-filled; otherwise
  the first channel of the first source is copied from slot 0 into every channel of
  every output, cut to the channel's length when the channel is shorter, and leaving the
  channel's further slots as they were when it is longer. Only on a channel that held
  zeros before is the longer channel the source extended by zeros.
\<close>

theorem passthrough:
  "\<not> isDestroy (constructor e) \<and> notInitialized (constructor e) \<and>
   (initRnnoise debug (constructor e) instantiated = (s0, True) \<longrightarrow>
      \<not> isDestroy s0 \<and> notInitialized s0) \<and>
   (\<not> isDestroy s \<and> notInitialized s \<longrightarrow>
      process eng s inputs outputs = Some (Inr (s, outputPassthrough inputs outputs, True))) \<and>
   (inputs = [] \<or> hd inputs = [] \<longrightarrow>
      outputPassthrough inputs outputs =
        map (map (\<lambda>channel. replicate (length channel) (Fin 0))) outputs) \<and>
   (inputs = (sourceChannel # channels) # sources \<longrightarrow>
      outputPassthrough inputs outputs =
        map (map (\<lambda>channel. take (length channel) sourceChannel @
                               drop (length sourceChannel) channel)) outputs) \<and>
   take n sourceChannel @ drop (length sourceChannel) (replicate n (Fin 0))
     = take n (sourceChannel @ replicate n (Fin 0))"
proof -
  have "outputPassthrough inputs outputs = outputSilence outputs"
    if "inputs = [] \<or> hd inputs = []"
    using that by (cases inputs; cases "hd inputs") auto
  moreover have "\<not> isDestroy s0 \<and> notInitialized s0"
    if "initRnnoise debug (constructor e) instantiated = (s0, True)"
    using initRnnoise_failed [OF that] by simp
  ultimately show ?thesis
    by (auto simp: process_def constructor_def notInitialized_def outputSilence_def
        copyToChannel_eq)
qed

text \<open>
  A source of two samples copied to a channel of three and a channel of one: the third
  slot of the longer channel keeps its 5 and is not set to 0.
\<close>

theorem passthrough_counterexample:
  "\<not> isDestroy (constructor (0::nat)) \<and> notInitialized (constructor (0::nat)) \<and>
   process echoEngine (constructor 0) [[[Fin 1, Fin 2]]] [[[Fin 5, Fin 5, Fin 5], [Fin 5]]]
     = Some (Inr (constructor 0, [[[Fin 1, Fin 2, Fin 5], [Fin 1]]], True)) \<and>
   [Fin 1, Fin 2, Fin 5] \<noteq> [Fin 1, Fin 2, Fin 0]"
  by (simp add: process_def constructor_def notInitialized_def copyToChannel_def
      set_from_start_def)

theorem passthrough_witness:
  "\<not> isDestroy (constructor (0::nat)) \<and> notInitialized (constructor (0::nat)) \<and>
   snd (initRnnoise False (constructor 0) (Some brokenInstance)) \<and>
   notInitialized (fst (initRnnoise False (constructor 0) (Some brokenInstance))) \<and>
   rnnoiseModule (fst (initRnnoise False (constructor 0) (Some brokenInstance))) \<noteq> None \<and>
   process echoEngine (constructor 0) [[[Fin 1, Fin 2]]] [[[Fin 5, Fin 5, Fin 5], [Fin 5]]]
     = Some (Inr (constructor 0,
                  outputPassthrough [[[Fin 1, Fin 2]]] [[[Fin 5, Fin 5, Fin 5], [Fin 5]]], True)) \<and>
   outputPassthrough [[[Fin 1, Fin 2]]] [[[Fin 5, Fin 5, Fin 5], [Fin 5]]]
     = [[[Fin 1, Fin 2, Fin 5], [Fin 1]]] \<and>
   outputPassthrough [] [[[Fin 5, Fin 5, Fin 5], [Fin 5]]] = [[[Fin 0, Fin 0, Fin 0], [Fin 0]]]"
proof -
  let ?outs = "[[[Fin 5, Fin 5, Fin 5], [Fin 5 :: number]]]"
  let ?s0 = "fst (initRnnoise False (constructor (0::nat)) (Some brokenInstance))"
  have failed: "snd (initRnnoise False (constructor (0::nat)) (Some brokenInstance))"
    and held: "rnnoiseModule ?s0 \<noteq> None"
    by (simp_all add: initRnnoise_def brokenInstance_def requiredFunctions_def Let_def)
  then have init: "initRnnoise False (constructor (0::nat)) (Some brokenInstance) = (?s0, True)"
    by (simp add: prod_eq_iff)
  note a = passthrough [where e = "0::nat" and s = "constructor 0" and eng = echoEngine
      and inputs = "[[[Fin 1, Fin 2]]]" and outputs = ?outs and sourceChannel = "[Fin 1, Fin 2]"
      and channels = "[]" and sources = "[]" and debug = False
      and instantiated = "Some brokenInstance" and ?s0.0 = ?s0 and n = 0]
  note b = passthrough [where e = "0::nat" and s = "constructor 0" and eng = echoEngine
      and inputs = "[]" and outputs = ?outs and sourceChannel = "[]"
      and channels = "[]" and sources = "[]" and debug = False and instantiated = None
      and ?s0.0 = "constructor 0" and n = 0]
  from a have c: "\<not> isDestroy (constructor (0::nat))" "notInitialized (constructor (0::nat))"
    by blast+
  from a init have u: "notInitialized ?s0" by blast
  from c a have "process echoEngine (constructor 0) [[[Fin 1, Fin 2]]] ?outs
     = Some (Inr (constructor 0, outputPassthrough [[[Fin 1, Fin 2]]] ?outs, True))"
    by blast
  moreover from a have "outputPassthrough [[[Fin 1, Fin 2]]] ?outs = [[[Fin 1, Fin 2, Fin 5], [Fin 1]]]"
    by simp
  moreover from b have "outputPassthrough [] ?outs = [[[Fin 0, Fin 0, Fin 0], [Fin 0]]]"
    by (simp add: eval_nat_numeral)
  ultimately show ?thesis using c failed u held by (intro conjI)
qed

lemma map_nth_upt: "length xs = n \<Longrightarrow> map (\<lambda>i. f (xs ! i)) [0..<n] = map f xs"
  by (auto simp: list_eq_iff_nth_eq)

lemma processFrame_sized:
  assumes "\<not> notInitialized s" and "int (length frame) = frameSize s"
  shows "processFrame eng s frame =
     (case eng (engine s) (map toEngineDomain frame) of
        Returned e outputView vad \<Rightarrow>
          Inr (s\<lparr>engine := e\<rparr>,
               map (\<lambda>i. fromEngineDomain (outputView i)) [0..<length frame], vad)
      | Threw e \<Rightarrow> Inr (s\<lparr>engine := e\<rparr>, frame, Fin 0))"
proof -
  have n: "nat (frameSize s) = length frame" using assms(2) by simp
  show ?thesis
    using assms by (simp add: processFrame_def Let_def n map_nth_upt)
qed

lemma processFrame_padded:
  assumes "\<not> notInitialized s" and "int (length frame) \<noteq> frameSize s"
    and "paddedFrame (frameSize s) frame = Inr padded"
  shows "processFrame eng s frame =
     (case eng (engine s) (map toEngineDomain padded) of
        Returned e outputView vad \<Rightarrow>
          Inr (s\<lparr>engine := e\<rparr>,
               map (\<lambda>i. fromEngineDomain (outputView i)) [0..<length padded], vad)
      | Threw e \<Rightarrow> Inr (s\<lparr>engine := e\<rparr>, padded, Fin 0))"
proof -
  have F: "0 \<le> frameSize s"
    using assms(3) paddedFrame_negative [of "frameSize s" frame] by (cases "frameSize s < 0") auto
  with assms(3) have n: "length padded = nat (frameSize s)"
    by (auto simp: paddedFrame_eq)
  show ?thesis
    using assms by (simp add: processFrame_def Let_def n [symmetric] map_nth_upt)
qed

text \<open>
  Claim C5, as the code has it. \<^verbatim>\<open>processFrame\<close> throws exactly when the processor
  is initialised with a negative frame size: the padding of lines 147 to 156 then
  runs for every frame, and its allocation fails before the \<^verbatim>\<open>try\<close> block is
  entered. In every other case it returns (lack of memory for the allocation aside),
  every exception of the engine path being caught. Not initialised, it returns the
  input frame with score 0 and leaves the processor alone. When the engine path
  throws, it returns score 0 and the frame it gave to that path: the input frame
  itself when its length is \<open>frameSize\<close>, and otherwise the copy cut or zero-padded to
  \<open>frameSize\<close> samples.
\<close>

theorem process_frame_fallback:
  "(notInitialized s \<longrightarrow> processFrame eng s frame = Inr (s, frame, Fin 0)) \<and>
   (processFrame eng s frame = Inl RangeError \<longleftrightarrow> \<not> notInitialized s \<and> frameSize s < 0) \<and>
   (notInitialized s \<or> 0 \<le> frameSize s \<longrightarrow>
      (\<exists>s' frame' vad. processFrame eng s frame = Inr (s', frame', vad))) \<and>
   (\<not> notInitialized s \<and> int (length frame) = frameSize s \<and>
    eng (engine s) (map toEngineDomain frame) = Threw e \<longrightarrow>
      processFrame eng s frame = Inr (s\<lparr>engine := e\<rparr>, frame, Fin 0)) \<and>
   (\<not> notInitialized s \<and> int (length frame) \<noteq> frameSize s \<and>
    paddedFrame (frameSize s) frame = Inr padded \<and>
    eng (engine s) (map toEngineDomain padded) = Threw e \<longrightarrow>
      processFrame eng s frame = Inr (s\<lparr>engine := e\<rparr>, padded, Fin 0)) \<and>
   (0 \<le> frameSize s \<longrightarrow>
      paddedFrame (frameSize s) frame =
        Inr (take (nat (frameSize s)) frame @
             replicate (nat (frameSize s) - length frame) (Fin 0))) \<and>
   (frameSize s < 0 \<longrightarrow> paddedFrame (frameSize s) frame = Inl RangeError)"
proof (intro conjI impI)
  show "processFrame eng s frame = Inr (s, frame, Fin 0)" if "notInitialized s"
    using that by (simp add: processFrame_def)
  show "processFrame eng s frame = Inl RangeError \<longleftrightarrow> \<not> notInitialized s \<and> frameSize s < 0"
    by (rule processFrame_throws)
  show "\<exists>s' frame' vad. processFrame eng s frame = Inr (s', frame', vad)"
    if "notInitialized s \<or> 0 \<le> frameSize s"
  proof (cases "processFrame eng s frame")
    case (Inl err)
    with that processFrame_throws [of eng s frame err] show ?thesis by auto
  next
    case (Inr r)
    then show ?thesis by (cases r) auto
  qed
  show "processFrame eng s frame = Inr (s\<lparr>engine := e\<rparr>, frame, Fin 0)"
    if "\<not> notInitialized s \<and> int (length frame) = frameSize s \<and>
        eng (engine s) (map toEngineDomain frame) = Threw e"
    using that by (simp add: processFrame_sized)
  show "processFrame eng s frame = Inr (s\<lparr>engine := e\<rparr>, padded, Fin 0)"
    if "\<not> notInitialized s \<and> int (length frame) \<noteq> frameSize s \<and>
        paddedFrame (frameSize s) frame = Inr padded \<and>
        eng (engine s) (map toEngineDomain padded) = Threw e"
    using that by (simp add: processFrame_padded)
  show "paddedFrame (frameSize s) frame =
        Inr (take (nat (frameSize s)) frame @
             replicate (nat (frameSize s) - length frame) (Fin 0))"
    if "0 \<le> frameSize s"
    using that by (rule paddedFrame_eq)
  show "paddedFrame (frameSize s) frame = Inl RangeError" if "frameSize s < 0"
    using that by (rule paddedFrame_negative)
qed

lemma negativeInstance_init:
  "initRnnoise False (constructor 0) (Some negativeInstance) =
     ((constructor 0)\<lparr>rnnoiseModule := Some \<lparr>has_rnnoise_destroy = True, has_free = True\<rparr>,
                      memory := Some WasmMemory, engine := 0, state := 1024,
                      frameSize := - 1, pcmInputBuf := 2048, pcmOutputBuf := 4096\<rparr>, False)"
  by (simp add: initRnnoise_def negativeInstance_def requiredFunctions_def Let_def)

text \<open>
  A frame of one sample given to a processor with frame size 2 whose engine throws:
  the zero-padded frame of two samples is returned, not the frame passed in. And a
  processor initialised from an engine that reports the frame size \<open>- 1\<close>:
  \<^verbatim>\<open>processFrame\<close> throws, and so does the render callback.
\<close>

theorem process_frame_fallback_counterexample:
  "\<not> notInitialized readyProcessor \<and>
   throwingEngine (engine readyProcessor) (map toEngineDomain [Fin 1, Fin 0]) = Threw 1 \<and>
   processFrame throwingEngine readyProcessor [Fin 1]
     = Inr (readyProcessor\<lparr>engine := 1\<rparr>, [Fin 1, Fin 0], Fin 0) \<and>
   [Fin 1, Fin 0] \<noteq> [Fin 1] \<and>
   \<not> snd (initRnnoise False (constructor 0) (Some negativeInstance)) \<and>
   \<not> notInitialized (fst (initRnnoise False (constructor 0) (Some negativeInstance))) \<and>
   frameSize (fst (initRnnoise False (constructor 0) (Some negativeInstance))) = - 1 \<and>
   processFrame echoEngine (fst (initRnnoise False (constructor 0) (Some negativeInstance)))
       [Fin 1]
     = Inl RangeError \<and>
   process echoEngine (fst (initRnnoise False (constructor 0) (Some negativeInstance)))
       [[[Fin 1]]] [[[Fin 0]]]
     = Some (Inl RangeError)"
proof -
  let ?s = "fst (initRnnoise False (constructor (0::nat)) (Some negativeInstance))"
  have ready: "\<not> notInitialized readyProcessor"
    "throwingEngine (engine readyProcessor) (map toEngineDomain [Fin 1, Fin 0]) = Threw 1"
    "processFrame throwingEngine readyProcessor [Fin 1]
       = Inr (readyProcessor\<lparr>engine := 1\<rparr>, [Fin 1, Fin 0], Fin 0)"
    "[Fin 1, Fin 0] \<noteq> [Fin (1 :: real)]"
    by (simp_all add: processFrame_def readyProcessor_def constructor_def notInitialized_def
        throwingEngine_def paddedFrame_eq)
  have init: "\<not> snd (initRnnoise False (constructor (0::nat)) (Some negativeInstance))"
    and r: "\<not> notInitialized ?s" and F: "frameSize ?s = - 1"
    and d: "\<not> isDestroy ?s" and b: "inputBuffer ?s = []"
    unfolding negativeInstance_init by (simp_all add: constructor_def notInitialized_def)
  have pf: "processFrame echoEngine ?s frame = Inl RangeError" for frame
    using processFrame_throws [of echoEngine ?s frame RangeError] r F by simp
  have "handleFrame echoEngine (?s\<lparr>inputBuffer := buf\<rparr>) frame = Inl RangeError" for buf frame
    using handleFrame_throws [of echoEngine "?s\<lparr>inputBuffer := buf\<rparr>" frame RangeError] r F
    by simp
  then have loop: "processFullFrames echoEngine (appendInput ?s [Fin 1]) = Some (Inl RangeError)"
    by (subst processFullFrames.simps) (simp add: appendInput_def F b)
  have cb: "process echoEngine ?s [[[Fin 1]]] [[[Fin 0]]] = Some (Inl RangeError)"
    using r d loop by (simp add: process_def)
  from ready init r F pf [of "[Fin 1]"] cb show ?thesis
    by (intro conjI)
qed

theorem process_frame_fallback_witness:
  "notInitialized (constructor (0::nat)) \<and>
   processFrame throwingEngine (constructor 0) [Fin 1] = Inr (constructor 0, [Fin 1], Fin 0) \<and>
   \<not> notInitialized readyProcessor \<and> 0 \<le> frameSize readyProcessor \<and>
   processFrame throwingEngine readyProcessor [Fin 1, Fin (1/2)] \<noteq> Inl RangeError \<and>
   (\<exists>s' frame' vad.
      processFrame throwingEngine readyProcessor [Fin 1, Fin (1/2)] = Inr (s', frame', vad)) \<and>
   int (length [Fin 1, Fin (1/2)]) = frameSize readyProcessor \<and>
   throwingEngine (engine readyProcessor) (map toEngineDomain [Fin 1, Fin (1/2)]) = Threw 1 \<and>
   processFrame throwingEngine readyProcessor [Fin 1, Fin (1/2)]
     = Inr (readyProcessor\<lparr>engine := 1\<rparr>, [Fin 1, Fin (1/2)], Fin 0) \<and>
   int (length [Fin 1]) \<noteq> frameSize readyProcessor \<and>
   paddedFrame (frameSize readyProcessor) [Fin 1] = Inr [Fin 1, Fin 0] \<and>
   throwingEngine (engine readyProcessor) (map toEngineDomain [Fin 1, Fin 0]) = Threw 1 \<and>
   processFrame throwingEngine readyProcessor [Fin 1]
     = Inr (readyProcessor\<lparr>engine := 1\<rparr>, [Fin 1, Fin 0], Fin 0) \<and>
   frameSize (readyProcessor\<lparr>frameSize := - 1\<rparr>) < 0 \<and>
   paddedFrame (frameSize (readyProcessor\<lparr>frameSize := - 1\<rparr>)) [Fin 1] = Inl RangeError \<and>
   processFrame throwingEngine (readyProcessor\<lparr>frameSize := - 1\<rparr>) [Fin 1] = Inl RangeError"
proof -
  let ?n = "readyProcessor\<lparr>frameSize := - 1\<rparr>"
  have u: "notInitialized (constructor (0::nat))"
    by (simp add: constructor_def notInitialized_def)
  have r: "\<not> notInitialized readyProcessor" and rn: "\<not> notInitialized ?n"
    by (simp_all add: readyProcessor_def constructor_def notInitialized_def)
  have F: "frameSize readyProcessor = 2" and e: "engine readyProcessor = 0"
    and Fn: "frameSize ?n < 0"
    by (simp_all add: readyProcessor_def constructor_def)
  have F0: "0 \<le> frameSize readyProcessor" by (simp add: F)
  have t: "throwingEngine (engine readyProcessor) fr = Threw 1" for fr
    by (simp add: throwingEngine_def e)
  have l: "int (length [Fin 1, Fin (1/2)]) = frameSize readyProcessor"
    "int (length [Fin 1]) \<noteq> frameSize readyProcessor"
    by (simp_all add: F)
  note a = process_frame_fallback [where s = "constructor 0" and eng = throwingEngine
      and frame = "[Fin 1]" and e = 1 and padded = "[]"]
  note b = process_frame_fallback [where s = readyProcessor and eng = throwingEngine
      and frame = "[Fin 1, Fin (1/2)]" and e = 1 and padded = "[]"]
  note c = process_frame_fallback [where s = readyProcessor and eng = throwingEngine
      and frame = "[Fin 1]" and e = 1 and padded = "[Fin 1, Fin 0]"]
  note n = process_frame_fallback [where s = ?n and eng = throwingEngine
      and frame = "[Fin 1]" and e = 1 and padded = "[]"]
  note 1 = a [THEN conjunct1, THEN mp, OF u]
  from b [THEN conjunct2, THEN conjunct1] F0
  have 2: "processFrame throwingEngine readyProcessor [Fin 1, Fin (1/2)] \<noteq> Inl RangeError"
    by simp
  note 3 = b [THEN conjunct2, THEN conjunct2, THEN conjunct1, THEN mp, OF disjI2 [OF F0]]
  note 4 = b [THEN conjunct2, THEN conjunct2, THEN conjunct2, THEN conjunct1, THEN mp,
      OF conjI [OF r conjI [OF l(1) t]]]
  from c [THEN conjunct2, THEN conjunct2, THEN conjunct2, THEN conjunct2, THEN conjunct2,
      THEN conjunct1, THEN mp, OF F0]
  have p: "paddedFrame (frameSize readyProcessor) [Fin 1] = Inr [Fin 1, Fin 0]"
    by (simp add: F)
  note 5 = c [THEN conjunct2, THEN conjunct2, THEN conjunct2, THEN conjunct2, THEN conjunct1,
      THEN mp, OF conjI [OF r conjI [OF l(2) conjI [OF p t]]]]
  note 6 = n [THEN conjunct2, THEN conjunct2, THEN conjunct2, THEN conjunct2, THEN conjunct2,
      THEN conjunct2, THEN mp, OF Fn]
  from n [THEN conjunct2, THEN conjunct1] rn Fn
  have 7: "processFrame throwingEngine ?n [Fin 1] = Inl RangeError"
    by blast
  from u 1 r F0 2 3 l(1) t 4 l(2) p t 5 Fn 6 7 show ?thesis by (intro conjI)
qed

text \<open>
  Claim C10. Ready (not destroyed, initialised), with no input source or a first source
  without channels, the callback returns true, leaves the processor unchanged (input and
  output buffers included, so nothing pending is served), and sets every sample of every
  channel of every output to 0, the channels keeping their lengths.
\<close>

theorem ready_without_input:
  assumes "\<not> isDestroy s" and "\<not> notInitialized s" and "inputs = [] \<or> hd inputs = []"
  shows "process eng s inputs outputs = Some (Inr (s, outputSilence outputs, True)) \<and>
    map (map length) (outputSilence outputs) = map (map length) outputs \<and>
    (\<forall>output \<in> set (outputSilence outputs). \<forall>channel \<in> set output.
        \<forall>sample \<in> set channel. sample = Fin 0)"
proof -
  have "process eng s inputs outputs = Some (Inr (s, outputSilence outputs, True))"
    using assms by (cases inputs) (auto simp: process_def)
  then show ?thesis by (auto simp: outputSilence_def)
qed

theorem ready_without_input_witness:
  "\<not> isDestroy pendingProcessor \<and> \<not> notInitialized pendingProcessor \<and>
   process echoEngine pendingProcessor [[]] [[[Fin 5, Fin 5], [Fin 5]]]
     = Some (Inr (pendingProcessor, [[[Fin 0, Fin 0], [Fin 0]]], True)) \<and>
   process echoEngine pendingProcessor [] [[[Fin 5, Fin 5], [Fin 5]]]
     = Some (Inr (pendingProcessor, [[[Fin 0, Fin 0], [Fin 0]]], True)) \<and>
   outputBuffer pendingProcessor = [Fin 1, Fin 2]"
proof -
  have d: "\<not> isDestroy pendingProcessor" and r: "\<not> notInitialized pendingProcessor"
    and o: "outputBuffer pendingProcessor = [Fin 1, Fin 2]"
    by (simp_all add: pendingProcessor_def readyProcessor_def constructor_def notInitialized_def)
  have z: "outputSilence [[[Fin 5, Fin 5], [Fin 5]]] = [[[Fin 0, Fin 0], [Fin 0]]]"
    by (simp add: outputSilence_def eval_nat_numeral)
  from ready_without_input [OF d r, of "[[]]" echoEngine "[[[Fin 5, Fin 5], [Fin 5]]]"]
  have 1: "process echoEngine pendingProcessor [[]] [[[Fin 5, Fin 5], [Fin 5]]]
     = Some (Inr (pendingProcessor, [[[Fin 0, Fin 0], [Fin 0]]], True))"
    unfolding z by simp
  from ready_without_input [OF d r, of "[]" echoEngine "[[[Fin 5, Fin 5], [Fin 5]]]"]
  have 2: "process echoEngine pendingProcessor [] [[[Fin 5, Fin 5], [Fin 5]]]
     = Some (Inr (pendingProcessor, [[[Fin 0, Fin 0], [Fin 0]]], True))"
    unfolding z by simp
  from d r 1 2 o show ?thesis by (intro conjI)
qed

lemma destroy_None:
  "rnnoiseModule s = None \<Longrightarrow>
   destroy s = (s\<lparr>isDestroy := True, inputBuffer := [], outputBuffer := [], vadHistory := [],
                   silenceCounter := 0\<rparr>, [])"
  by (simp add: destroy_def)

lemma destroy_fields:
  "isDestroy (fst (destroy s))" "rnnoiseModule (fst (destroy s)) = None"
  "memory (fst (destroy s)) = (if rnnoiseModule s = None then memory s else None)"
  "inputBuffer (fst (destroy s)) = []" "outputBuffer (fst (destroy s)) = []"
  "vadHistory (fst (destroy s)) = []" "silenceCounter (fst (destroy s)) = 0"
  by (auto simp: destroy_def Let_def split: option.splits prod.splits)

lemma destroy_twice: "destroy (fst (destroy s)) = (fst (destroy s), [])"
proof -
  let ?t = "fst (destroy s)"
  have "destroy ?t = (?t\<lparr>isDestroy := True, inputBuffer := [], outputBuffer := [],
                          vadHistory := [], silenceCounter := 0\<rparr>, [])"
    by (rule destroy_None) (rule destroy_fields)
  moreover have "?t\<lparr>isDestroy := True, inputBuffer := [], outputBuffer := [],
                    vadHistory := [], silenceCounter := 0\<rparr> = ?t"
    by (rule processor.equality) (simp_all add: destroy_fields)
  ultimately show ?thesis by simp
qed

lemma destroy_calls:
  assumes "rnnoiseModule s = Some m" and "has_rnnoise_destroy m" and "has_free m"
    and "state s \<noteq> 0" and "pcmInputBuf s \<noteq> 0" and "pcmOutputBuf s \<noteq> 0"
  shows "snd (destroy s) = [Rnnoise_destroy (state s), Free (pcmInputBuf s), Free (pcmOutputBuf s)]"
    and "state (fst (destroy s)) = 0" and "pcmInputBuf (fst (destroy s)) = 0"
    and "pcmOutputBuf (fst (destroy s)) = 0"
  using assms by (simp_all add: destroy_def Let_def)

text \<open>
  Claim C7. After \<^verbatim>\<open>destroy\<close> the processor is destroyed (the callback returns
  false and touches nothing) and holds no module. A second \<^verbatim>\<open>destroy\<close> makes no
  engine call and leaves it as it is. On an initialised processor, whose module
  exports \<^verbatim>\<open>rnnoise_destroy\<close> and \<^verbatim>\<open>free\<close>, the two calls together destroy the
  handle once and free each scratch region once, and the handle, the two pointers and
  the memory reference are cleared by the first.
\<close>

theorem destroy_idempotent:
  "isDestroy (fst (destroy s)) \<and>
   process eng (fst (destroy s)) inputs outputs
     = Some (Inr (fst (destroy s), outputs, False)) \<and>
   rnnoiseModule (fst (destroy s)) = None \<and>
   destroy (fst (destroy s)) = (fst (destroy s), []) \<and>
   (rnnoiseModule s = Some m \<and> has_rnnoise_destroy m \<and> has_free m \<and>
    state s \<noteq> 0 \<and> pcmInputBuf s \<noteq> 0 \<and> pcmOutputBuf s \<noteq> 0 \<longrightarrow>
      snd (destroy s) @ snd (destroy (fst (destroy s)))
        = [Rnnoise_destroy (state s), Free (pcmInputBuf s), Free (pcmOutputBuf s)] \<and>
      state (fst (destroy s)) = 0 \<and> pcmInputBuf (fst (destroy s)) = 0 \<and>
      pcmOutputBuf (fst (destroy s)) = 0 \<and> memory (fst (destroy s)) = None)"
  using destroy_calls [of s m]
  by (simp add: destroy_twice destroy_fields process_def)

theorem destroy_idempotent_witness:
  "rnnoiseModule readyProcessor = Some \<lparr>has_rnnoise_destroy = True, has_free = True\<rparr> \<and>
   state readyProcessor \<noteq> 0 \<and> pcmInputBuf readyProcessor \<noteq> 0 \<and>
   pcmOutputBuf readyProcessor \<noteq> 0 \<and>
   snd (destroy readyProcessor) = [Rnnoise_destroy 1024, Free 2048, Free 4096] \<and>
   snd (destroy (fst (destroy readyProcessor))) = [] \<and>
   isDestroy (fst (destroy (fst (destroy readyProcessor))))"
proof -
  have f: "rnnoiseModule readyProcessor = Some \<lparr>has_rnnoise_destroy = True, has_free = True\<rparr>"
    "state readyProcessor = 1024" "pcmInputBuf readyProcessor = 2048"
    "pcmOutputBuf readyProcessor = 4096"
    by (simp_all add: readyProcessor_def constructor_def)
  note inst = destroy_idempotent [of readyProcessor echoEngine "[]" "[]"
      "\<lparr>has_rnnoise_destroy = True, has_free = True\<rparr>"]
  from inst have twice: "destroy (fst (destroy readyProcessor)) = (fst (destroy readyProcessor), [])"
    and d: "isDestroy (fst (destroy readyProcessor))"
    by blast+
  have nz: "state readyProcessor \<noteq> 0" "pcmInputBuf readyProcessor \<noteq> 0"
    "pcmOutputBuf readyProcessor \<noteq> 0"
    by (simp_all add: f)
  have m: "has_rnnoise_destroy \<lparr>has_rnnoise_destroy = True, has_free = True\<rparr>"
    "has_free \<lparr>has_rnnoise_destroy = True, has_free = True\<rparr>"
    by simp_all
  from inst f(1) m nz
  have "snd (destroy readyProcessor) @ snd (destroy (fst (destroy readyProcessor)))
        = [Rnnoise_destroy (state readyProcessor), Free (pcmInputBuf readyProcessor),
           Free (pcmOutputBuf readyProcessor)]"
    by blast
  then have calls: "snd (destroy readyProcessor) = [Rnnoise_destroy 1024, Free 2048, Free 4096]"
    unfolding twice f by simp
  from twice have none: "snd (destroy (fst (destroy readyProcessor))) = []" by simp
  from d twice have dd: "isDestroy (fst (destroy (fst (destroy readyProcessor))))" by simp
  from f(1) nz calls none dd show ?thesis by (intro conjI)
qed

subsection \<open>outputToChannels\<close>

lemma Min_insert_min:
  assumes "finite A"
  shows "Min (insert (min a b) A) = Min (insert a (insert b A))"
proof (cases "A = {}")
  case True
  then show ?thesis by (simp add: min.commute)
next
  case False
  with assms show ?thesis by (simp add: min.assoc)
qed

lemma foldl_min_lengths:
  "foldl (\<lambda>n channel. min n (length channel)) n chans = Min (insert n (length ` set chans))"
proof (induction chans arbitrary: n)
  case Nil
  show ?case by simp
next
  case (Cons ch chans)
  show ?case
    by (simp add: Cons.IH Min_insert_min insert_commute)
qed

lemma Min_insert_Min:
  fixes A B :: "nat set"
  assumes "finite A" and "A \<noteq> {}" and "finite B"
  shows "Min (insert (Min A) B) = Min (A \<union> B)"
proof (cases "B = {}")
  case True
  then show ?thesis by simp
next
  case False
  with assms have "Min (A \<union> B) = min (Min A) (Min B)"
    by (intro Min_Un)
  with False assms show ?thesis by simp
qed

lemma samplesToCopy_general:
  "foldl (\<lambda>n output. foldl (\<lambda>n channel. min n (length channel)) n output) n outputs
     = Min (insert n (length ` set (concat outputs)))"
proof (induction outputs arbitrary: n)
  case Nil
  show ?case by simp
next
  case (Cons chans outputs)
  define A where "A = insert n (length ` set chans)"
  define B where "B = length ` set (concat outputs)"
  have "finite A" "A \<noteq> {}" "finite B" by (simp_all add: A_def B_def)
  then have "Min (insert (Min A) B) = Min (A \<union> B)" by (rule Min_insert_Min)
  moreover have "insert n (length ` set (concat (chans # outputs))) = A \<union> B"
    by (auto simp: A_def B_def)
  moreover have "foldl (\<lambda>n output. foldl (\<lambda>n channel. min n (length channel)) n output) n
      (chans # outputs) = Min (insert (Min A) B)"
  proof -
    let ?g = "\<lambda>n channel. min n (length channel)"
    let ?F = "\<lambda>n output. foldl ?g n output"
    have "foldl ?F n (chans # outputs) = foldl ?F (foldl ?g n chans) outputs" by simp
    also have "\<dots> = Min (insert (foldl ?g n chans) B)"
      unfolding B_def by (rule Cons.IH)
    also have "foldl ?g n chans = Min A"
      unfolding A_def by (rule foldl_min_lengths)
    finally show ?thesis .
  qed
  ultimately show ?case by simp
qed

lemma samplesToCopy_Min:
  "samplesToCopy buf outputs = Min (insert (length buf) (length ` set (concat outputs)))"
  by (simp add: samplesToCopy_def samplesToCopy_general)

lemma samplesToCopy_le:
  "samplesToCopy buf outputs \<le> length buf"
  "channel \<in> set (concat outputs) \<Longrightarrow> samplesToCopy buf outputs \<le> length channel"
  by (simp_all add: samplesToCopy_Min)

lemma write_next_slot:
  assumes "n < length buf" and "n < length channel"
  shows "(take n buf @ drop n channel)[n := buf ! n] = take (Suc n) buf @ drop (Suc n) channel"
proof -
  have d: "drop n channel = channel ! n # drop (Suc n) channel"
    using assms by (simp add: Cons_nth_drop_Suc)
  have t: "take (Suc n) buf = take n buf @ [buf ! n]"
    using assms by (simp add: take_Suc_conv_app_nth)
  have l: "length (take n buf) = n" using assms by simp
  show ?thesis unfolding d t using assms by (simp add: list_update_append min_absorb2)
qed

lemma copy_loop:
  assumes "n \<le> length buf" and "\<forall>channel \<in> set (concat outputs). n \<le> length channel"
  shows "foldl (writeSample buf) outputs [0..<n]
     = map (map (\<lambda>channel. take n buf @ drop n channel)) outputs"
  using assms
proof (induction n)
  case 0
  show ?case by (simp add: map_idI)
next
  case (Suc n)
  then have IH: "foldl (writeSample buf) outputs [0..<n]
     = map (map (\<lambda>channel. take n buf @ drop n channel)) outputs"
    by (simp add: Suc_le_eq less_imp_le)
  have step: "(if n < length (take n buf @ drop n channel)
               then (take n buf @ drop n channel)[n := buf ! n]
               else take n buf @ drop n channel)
            = take (Suc n) buf @ drop (Suc n) channel"
    if "channel \<in> set (concat outputs)" for channel
  proof -
    from that Suc.prems have "Suc n \<le> length channel" "Suc n \<le> length buf" by blast+
    then have "n < length channel" "n < length buf" by simp_all
    then show ?thesis by (simp add: write_next_slot)
  qed
  define f where "f = (\<lambda>channel. if n < length (take n buf @ drop n channel)
               then (take n buf @ drop n channel)[n := buf ! n]
               else take n buf @ drop n channel)"
  define g where "g = (\<lambda>channel. take (Suc n) buf @ drop (Suc n) channel)"
  have fg: "f channel = g channel" if "channel \<in> set (concat outputs)" for channel
    using step [OF that] by (simp only: f_def g_def)
  have "foldl (writeSample buf) outputs [0..<Suc n]
      = writeSample buf (map (map (\<lambda>channel. take n buf @ drop n channel)) outputs) n"
    by (simp add: IH)
  also have "\<dots> = map (map f) outputs"
    by (simp add: writeSample_def f_def comp_def)
  also have "\<dots> = map (map g) outputs"
    using fg by (auto intro!: map_cong)
  finally show ?case by (simp only: g_def)
qed

text \<open>
  Claim C8. \<^verbatim>\<open>outputToChannels\<close> copies \<open>n\<close> leading samples of the output buffer,
  \<open>n\<close> being the least of the buffer's length and the lengths of all destination
  channels, into the leading slots of every channel of every output, leaves the further
  slots of each channel as they were, and removes exactly these \<open>n\<close> samples from the
  buffer. When no channel is shorter than the buffer, the whole buffer is copied and the
  buffer is left empty; when the buffer is empty, nothing changes.
\<close>

theorem output_fill:
  "samplesToCopy (outputBuffer s) outputs
     = Min (insert (length (outputBuffer s)) (length ` set (concat outputs))) \<and>
   outputToChannels s outputs =
     (s\<lparr>outputBuffer := drop (samplesToCopy (outputBuffer s) outputs) (outputBuffer s)\<rparr>,
      map (map (\<lambda>channel. take (samplesToCopy (outputBuffer s) outputs) (outputBuffer s) @
                            drop (samplesToCopy (outputBuffer s) outputs) channel)) outputs) \<and>
   ((\<forall>channel \<in> set (concat outputs). length (outputBuffer s) \<le> length channel) \<longrightarrow>
      outputToChannels s outputs =
        (s\<lparr>outputBuffer := []\<rparr>,
         map (map (\<lambda>channel. outputBuffer s @ drop (length (outputBuffer s)) channel)) outputs)) \<and>
   (outputBuffer s = [] \<longrightarrow> outputToChannels s outputs = (s, outputs))"
proof -
  let ?buf = "outputBuffer s"
  let ?n = "samplesToCopy ?buf outputs"
  have le: "?n \<le> length ?buf" by (rule samplesToCopy_le)
  have ch: "\<forall>channel \<in> set (concat outputs). ?n \<le> length channel"
    using samplesToCopy_le(2) by blast
  have gen: "outputToChannels s outputs =
     (s\<lparr>outputBuffer := drop ?n ?buf\<rparr>,
      map (map (\<lambda>channel. take ?n ?buf @ drop ?n channel)) outputs)"
  proof (cases "?n = 0")
    case True
    then show ?thesis by (simp add: outputToChannels_def map_idI)
  next
    case False
    with le have "?buf \<noteq> []" by auto
    with False le show ?thesis
      by (simp add: outputToChannels_def Let_def copy_loop [OF le ch])
  qed
  have full: "?n = length ?buf"
    if "\<forall>channel \<in> set (concat outputs). length ?buf \<le> length channel"
    using that by (auto simp: samplesToCopy_Min intro!: Min_eqI)
  have under: "outputToChannels s outputs =
        (s\<lparr>outputBuffer := []\<rparr>,
         map (map (\<lambda>channel. ?buf @ drop (length ?buf) channel)) outputs)"
    if "\<forall>channel \<in> set (concat outputs). length ?buf \<le> length channel"
    using gen unfolding full [OF that] by simp
  have none: "outputToChannels s outputs = (s, outputs)" if "?buf = []"
    using that by (simp add: outputToChannels_def)
  from samplesToCopy_Min [of ?buf outputs] gen under none show ?thesis
    by (intro conjI impI)
qed

theorem output_fill_witness:
  "outputBuffer pendingProcessor = [Fin 1, Fin 2] \<and>
   outputToChannels pendingProcessor [[[Fin 5, Fin 5, Fin 5], [Fin 6, Fin 6]], [[Fin 7, Fin 7]]]
     = (pendingProcessor\<lparr>outputBuffer := []\<rparr>,
        [[[Fin 1, Fin 2, Fin 5], [Fin 1, Fin 2]], [[Fin 1, Fin 2]]]) \<and>
   outputToChannels pendingProcessor [[[Fin 5, Fin 5, Fin 5], [Fin 6]]]
     = (pendingProcessor\<lparr>outputBuffer := [Fin 2]\<rparr>, [[[Fin 1, Fin 5, Fin 5], [Fin 1]]]) \<and>
   outputBuffer readyProcessor = [] \<and>
   outputToChannels readyProcessor [[[Fin 5, Fin 5, Fin 5], [Fin 6]]]
     = (readyProcessor, [[[Fin 5, Fin 5, Fin 5], [Fin 6]]])"
proof -
  let ?a = "[[[Fin 5, Fin 5, Fin 5], [Fin 6, Fin 6]], [[Fin 7, Fin 7 :: number]]]"
  let ?b = "[[[Fin 5, Fin 5, Fin 5], [Fin 6 :: number]]]"
  have buf: "outputBuffer pendingProcessor = [Fin 1, Fin 2]"
    by (simp add: pendingProcessor_def)
  have e: "outputBuffer readyProcessor = []"
    by (simp add: readyProcessor_def constructor_def)
  have long: "\<forall>channel \<in> set (concat ?a). length (outputBuffer pendingProcessor) \<le> length channel"
    by (simp add: buf)
  from output_fill [of pendingProcessor ?a] long
  have 1: "outputToChannels pendingProcessor ?a
     = (pendingProcessor\<lparr>outputBuffer := []\<rparr>,
        [[[Fin 1, Fin 2, Fin 5], [Fin 1, Fin 2]], [[Fin 1, Fin 2]]])"
    by (simp add: buf)
  have n: "samplesToCopy (outputBuffer pendingProcessor) ?b = 1"
    by (simp add: samplesToCopy_def buf)
  from output_fill [of pendingProcessor ?b]
  have 2: "outputToChannels pendingProcessor ?b
     = (pendingProcessor\<lparr>outputBuffer := [Fin 2]\<rparr>, [[[Fin 1, Fin 5, Fin 5], [Fin 1]]])"
    unfolding n by (simp add: buf)
  from output_fill [of readyProcessor ?b] e
  have 3: "outputToChannels readyProcessor ?b = (readyProcessor, ?b)"
    by blast
  from buf 1 2 e 3 show ?thesis by (intro conjI)
qed

end
